theory Spec2Isabelle
  imports Complex_Main "HOL-Library.Signed_Division" "HOL-Library.Word"
begin

section \<open>Numbers, constants and run-time faults\<close>

text \<open>
  The program is \<^verbatim>\<open>src/main.go\<close>. Its \<^verbatim>\<open>float64\<close> values are modelled by the real
  numbers they denote: every literal (\<^verbatim>\<open>0.05\<close>, \<^verbatim>\<open>0.6\<close>, ...) is the decimal fraction
  written in the source and every operation is exact, so rounding, infinities and NaN
  are outside the model. The geometry integers (viewport size, lanes, rows, columns)
  are \<^typ>\<open>int\<close>, with Go's truncating \<^verbatim>\<open>/\<close> and \<^verbatim>\<open>%\<close> written \<open>sdiv\<close> and \<open>smod\<close>.
  The two accumulators \<^verbatim>\<open>score\<close> and \<^verbatim>\<open>coins\<close> are 64-bit words, so that \<^verbatim>\<open>+=\<close> and
  \<^verbatim>\<open>++\<close> wrap as they do on a 64-bit platform.
\<close>

text \<open>The conversion \<^verbatim>\<open>int(x)\<close> of a \<^verbatim>\<open>float64\<close>: truncation toward zero.\<close>

definition go_int :: "real \<Rightarrow> int" where
  "go_int x = (if 0 \<le> x then \<lfloor>x\<rfloor> else \<lceil>x\<rceil>)"

definition numLanes :: int where
  "numLanes = 3"

definition laneWidth :: int where
  "laneWidth = 7"

definition trackWidth :: int where
  "trackWidth = numLanes * laneWidth + 4"

definition farZ :: int where
  "farZ = 20"

definition spawnZ :: int where
  "spawnZ = farZ - 1"

definition dodgeLookahead :: int where
  "dodgeLookahead = 8"

text \<open>
  The run-time panics the code can raise. A write or read of the row buffer outside its
  bounds is kept apart from an out-of-range index into one of the fixed arrays
  (\<^verbatim>\<open>danger\<close>, \<^verbatim>\<open>legs\<close>).
\<close>

datatype panic =
    BufferIndexOutOfRange
  | ArrayIndexOutOfRange
  | IntegerDivideByZero
  | MakeSliceLenOutOfRange

text \<open>Sequencing of steps that may panic, and a loop over a list of indices.\<close>

definition thenDo :: "panic + 'a \<Rightarrow> ('a \<Rightarrow> panic + 'b) \<Rightarrow> panic + 'b" where
  "thenDo m f = (case m of Inl e \<Rightarrow> Inl e | Inr v \<Rightarrow> f v)"

fun forEach :: "'i list \<Rightarrow> ('i \<Rightarrow> 's \<Rightarrow> panic + 's) \<Rightarrow> 's \<Rightarrow> panic + 's" where
  "forEach [] body s = Inr s"
| "forEach (i # rest) body s = thenDo (body i s) (forEach rest body)"

section \<open>Game state\<close>

record obstacle =
  lane :: int
  z :: real
  active :: bool

record coinObj =
  lane :: int
  z :: real
  active :: bool

text \<open>
  The pools \<^verbatim>\<open>[20]obstacle\<close> and \<^verbatim>\<open>[30]coinObj\<close> are lists; \<open>newGame\<close> gives them their
  lengths and no operation changes a length.
\<close>

record game =
  width :: int
  height :: int
  speed :: real
  score :: "64 word"
  coins :: "64 word"
  runnerLane :: int
  targetLane :: int
  laneX :: real
  obstacles :: "obstacle list"
  coinPool :: "coinObj list"
  scrollOff :: real
  elapsed :: real
  spawnTimer :: real
  coinTimer :: real
  frame :: string

definition newGame :: "int \<Rightarrow> int \<Rightarrow> game" where
  "newGame w h =
     \<lparr>width = w, height = h, speed = 6, score = 0, coins = 0,
      runnerLane = 1, targetLane = 1, laneX = 1,
      obstacles = replicate 20 \<lparr>obstacle.lane = 0, obstacle.z = 0, obstacle.active = False\<rparr>,
      coinPool = replicate 30 \<lparr>coinObj.lane = 0, coinObj.z = 0, coinObj.active = False\<rparr>,
      scrollOff = 0, elapsed = 0, spawnTimer = 0, coinTimer = 0, frame = []\<rparr>"

section \<open>The simulation step \<^verbatim>\<open>game.update\<close>\<close>

text \<open>Lines 69 to 78: clock, distance score, speed ramp, scroll offset.\<close>

definition advanceClock :: "real \<Rightarrow> game \<Rightarrow> game" where
  "advanceClock dt g =
     (let g1 = g\<lparr>elapsed := elapsed g + dt\<rparr>;
          g2 = g1\<lparr>score := score g1 + of_int (go_int (speed g1 * dt * 10))\<rparr>;
          g3 = g2\<lparr>speed := 6 + elapsed g2 * (5 / 100)\<rparr>;
          g4 = (if speed g3 > 16 then g3\<lparr>speed := 16\<rparr> else g3)
      in g4\<lparr>scrollOff := scrollOff g4 + speed g4 * dt\<rparr>)"

text \<open>Lines 81 to 89: the body of the obstacle loop at index \<open>i\<close>, and the loop.\<close>

definition obstacleStep :: "real \<Rightarrow> nat \<Rightarrow> game \<Rightarrow> game" where
  "obstacleStep dt i g =
     (if \<not> obstacle.active (obstacles g ! i) then g
      else
        let g1 = g\<lparr>obstacles := (obstacles g)
                   [i := (obstacles g ! i)\<lparr>obstacle.z := obstacle.z (obstacles g ! i) - speed g * dt\<rparr>]\<rparr>
        in if obstacle.z (obstacles g1 ! i) < - 1
           then g1\<lparr>obstacles := (obstacles g1)[i := (obstacles g1 ! i)\<lparr>obstacle.active := False\<rparr>]\<rparr>
           else g1)"

definition moveObstacles :: "real \<Rightarrow> game \<Rightarrow> game" where
  "moveObstacles dt g = fold (obstacleStep dt) [0..<length (obstacles g)] g"

text \<open>Lines 92 to 106: the body of the coin loop at index \<open>i\<close>, and the loop.\<close>

definition coinStep :: "real \<Rightarrow> nat \<Rightarrow> game \<Rightarrow> game" where
  "coinStep dt i g =
     (if \<not> coinObj.active (coinPool g ! i) then g
      else
        let g1 = g\<lparr>coinPool := (coinPool g)
                   [i := (coinPool g ! i)\<lparr>coinObj.z := coinObj.z (coinPool g ! i) - speed g * dt\<rparr>]\<rparr>;
            g2 = (if coinObj.z (coinPool g1 ! i) < - 1
                  then g1\<lparr>coinPool := (coinPool g1)[i := (coinPool g1 ! i)\<lparr>coinObj.active := False\<rparr>]\<rparr>
                  else g1)
        in if coinObj.z (coinPool g2 ! i) < 2 \<and> coinObj.z (coinPool g2 ! i) > 0
              \<and> coinObj.lane (coinPool g2 ! i) = runnerLane g2
           then g2\<lparr>coinPool := (coinPool g2)[i := (coinPool g2 ! i)\<lparr>coinObj.active := False\<rparr>],
                   coins := coins g2 + 1,
                   score := score g2 + 50\<rparr>
           else g2)"

definition moveCoins :: "real \<Rightarrow> game \<Rightarrow> game" where
  "moveCoins dt g = fold (coinStep dt) [0..<length (coinPool g)] g"

text \<open>
  \<^verbatim>\<open>rand.Intn(numLanes)\<close> is the program's only source of nondeterminism. The value each
  call returns is an input of the model: \<open>ol\<close> for the call in \<^verbatim>\<open>spawnObstacle\<close>, \<open>cl\<close> for
  the call in \<^verbatim>\<open>spawnCoin\<close>.
\<close>

text \<open>Lines 148 to 159: scan the slots in order, fill the first inactive one and return.\<close>

fun spawnObstacleFrom :: "int \<Rightarrow> nat list \<Rightarrow> game \<Rightarrow> game" where
  "spawnObstacleFrom ol [] g = g"
| "spawnObstacleFrom ol (i # rest) g =
     (if \<not> obstacle.active (obstacles g ! i)
      then g\<lparr>obstacles := (obstacles g)
             [i := \<lparr>obstacle.lane = ol, obstacle.z = real_of_int spawnZ, obstacle.active = True\<rparr>]\<rparr>
      else spawnObstacleFrom ol rest g)"

definition spawnObstacle :: "int \<Rightarrow> game \<Rightarrow> game" where
  "spawnObstacle ol g = spawnObstacleFrom ol [0..<length (obstacles g)] g"

text \<open>Lines 161 to 175: three coins in one lane, each into the first inactive slot.\<close>

fun spawnCoinFrom :: "int \<Rightarrow> int \<Rightarrow> nat list \<Rightarrow> game \<Rightarrow> game" where
  "spawnCoinFrom cl j [] g = g"
| "spawnCoinFrom cl j (i # rest) g =
     (if \<not> coinObj.active (coinPool g ! i)
      then g\<lparr>coinPool := (coinPool g)
             [i := \<lparr>coinObj.lane = cl,
                    coinObj.z = real_of_int spawnZ + real_of_int j * (15 / 10),
                    coinObj.active = True\<rparr>]\<rparr>
      else spawnCoinFrom cl j rest g)"

definition spawnCoin :: "int \<Rightarrow> game \<Rightarrow> game" where
  "spawnCoin cl g =
     fold (\<lambda>j g'. spawnCoinFrom cl j [0..<length (coinPool g')] g') [0, 1, 2] g"

text \<open>Lines 109 to 117 and 120 to 124: the two spawn timers.\<close>

definition obstacleTimer :: "real \<Rightarrow> int \<Rightarrow> game \<Rightarrow> game" where
  "obstacleTimer dt ol g =
     (let g1 = g\<lparr>spawnTimer := spawnTimer g + dt\<rparr>;
          interval0 = 2 - speed g1 * (6 / 100);
          interval = (if interval0 < 7 / 10 then 7 / 10 else interval0)
      in if spawnTimer g1 \<ge> interval
         then spawnObstacle ol (g1\<lparr>spawnTimer := spawnTimer g1 - interval\<rparr>)
         else g1)"

definition coinTimerTick :: "real \<Rightarrow> int \<Rightarrow> game \<Rightarrow> game" where
  "coinTimerTick dt cl g =
     (let g1 = g\<lparr>coinTimer := coinTimer g + dt\<rparr>
      in if coinTimer g1 \<ge> 6 / 10
         then spawnCoin cl (g1\<lparr>coinTimer := coinTimer g1 - 6 / 10\<rparr>)
         else g1)"

text \<open>
  Lines 177 to 211. \<^verbatim>\<open>danger\<close> is an array of \<open>numLanes\<close> booleans; indexing it with a lane
  outside \<open>0..2\<close> panics.
\<close>

definition dangerStep :: "game \<Rightarrow> nat \<Rightarrow> bool list \<Rightarrow> panic + bool list" where
  "dangerStep g i danger =
     (if \<not> obstacle.active (obstacles g ! i) then Inr danger
      else if obstacle.z (obstacles g ! i) > 0
              \<and> obstacle.z (obstacles g ! i) < real_of_int dodgeLookahead
      then (if 0 \<le> obstacle.lane (obstacles g ! i)
               \<and> obstacle.lane (obstacles g ! i) < int (length danger)
            then Inr (danger[nat (obstacle.lane (obstacles g ! i)) := True])
            else Inl ArrayIndexOutOfRange)
      else Inr danger)"

definition dangerFlags :: "game \<Rightarrow> panic + bool list" where
  "dangerFlags g =
     forEach [0..<length (obstacles g)] (dangerStep g) (replicate (nat numLanes) False)"

text \<open>The inner loop over the coin pool for lane \<open>l\<close>, and the body of the lane loop.\<close>

definition coinScan :: "game \<Rightarrow> int \<Rightarrow> int \<Rightarrow> int" where
  "coinScan g l bestLane =
     fold (\<lambda>i b. if coinObj.active (coinPool g ! i) \<and> coinObj.lane (coinPool g ! i) = l
                     \<and> coinObj.z (coinPool g ! i) < real_of_int dodgeLookahead
                  then l else b)
          [0..<length (coinPool g)] bestLane"

definition laneStep :: "game \<Rightarrow> bool list \<Rightarrow> int \<Rightarrow> int \<Rightarrow> int" where
  "laneStep g danger l bestLane =
     (if \<not> danger ! nat l
      then coinScan g l (if bestLane = - 1 then l else bestLane)
      else bestLane)"

definition autoDodge :: "game \<Rightarrow> panic + game" where
  "autoDodge g =
     (case dangerFlags g of
        Inl e \<Rightarrow> Inl e
      | Inr danger \<Rightarrow>
          let cur = targetLane g in
          if \<not> (0 \<le> cur \<and> cur < int (length danger)) then Inl ArrayIndexOutOfRange
          else if \<not> danger ! nat cur then Inr g
          else
            let bestLane = fold (laneStep g danger) [0..numLanes - 1] (- 1)
            in if bestLane \<ge> 0 then Inr (g\<lparr>targetLane := bestLane\<rparr>) else Inr g)"

text \<open>Lines 130 to 145: the smooth lane transition.\<close>

definition laneTransition :: "real \<Rightarrow> game \<Rightarrow> game" where
  "laneTransition dt g =
     (let target = real_of_int (targetLane g);
          diff = target - laneX g
      in if diff > 5 / 100
         then (let g1 = g\<lparr>laneX := laneX g + dt * 8\<rparr>
               in if laneX g1 > target then g1\<lparr>laneX := target\<rparr> else g1)
         else if diff < - (5 / 100)
         then (let g1 = g\<lparr>laneX := laneX g - dt * 8\<rparr>
               in if laneX g1 < target then g1\<lparr>laneX := target\<rparr> else g1)
         else g\<lparr>laneX := target, runnerLane := targetLane g\<rparr>)"

definition update :: "real \<Rightarrow> int \<Rightarrow> int \<Rightarrow> game \<Rightarrow> panic + game" where
  "update dt ol cl g =
     thenDo
       (autoDodge
         (coinTimerTick dt cl
           (obstacleTimer dt ol
             (moveCoins dt
               (moveObstacles dt
                 (advanceClock dt g))))))
       (\<lambda>g'. Inr (laneTransition dt g'))"


text \<open>The harness loop: one \<open>update\<close> per tick, each tick with its \<open>dt\<close> and its two draws.\<close>

fun run :: "(real \<times> int \<times> int) list \<Rightarrow> game \<Rightarrow> panic + game" where
  "run [] g = Inr g"
| "run ((dt, ol, cl) # rest) g = thenDo (update dt ol cl g) (run rest)"

section \<open>The frame compositor \<^verbatim>\<open>game.render\<close>\<close>

text \<open>
  Every assignment \<^verbatim>\<open>buf[x] = c\<close> of the source is a \<open>bufSet\<close> and every read
  \<^verbatim>\<open>buf[x]\<close> a \<open>bufGet\<close>: outside the buffer they panic. The guards the source puts
  around them are written where the source has them.
\<close>

definition bufSet :: "string \<Rightarrow> int \<Rightarrow> char \<Rightarrow> panic + string" where
  "bufSet buf x c =
     (if 0 \<le> x \<and> x < int (length buf) then Inr (buf[nat x := c])
      else Inl BufferIndexOutOfRange)"

definition bufGet :: "string \<Rightarrow> int \<Rightarrow> panic + char" where
  "bufGet buf x =
     (if 0 \<le> x \<and> x < int (length buf) then Inr (buf ! nat x)
      else Inl BufferIndexOutOfRange)"

text \<open>Lines 436 to 443 and 432 to 434.\<close>

definition placeStep :: "int \<Rightarrow> nat \<times> char \<Rightarrow> string \<Rightarrow> panic + string" where
  "placeStep x ic buf =
     (let px = x + int (fst ic)
      in if px \<ge> 0 \<and> px < int (length buf) then bufSet buf px (snd ic) else Inr buf)"

definition placeStringBytes :: "string \<Rightarrow> int \<Rightarrow> string \<Rightarrow> panic + string" where
  "placeStringBytes buf x s = forEach (enumerate 0 s) (placeStep x) buf"

definition placeString :: "string \<Rightarrow> int \<Rightarrow> string \<Rightarrow> panic + string" where
  "placeString buf x s = placeStringBytes buf x s"

text \<open>\<^verbatim>\<open>fmt.Sprintf\<close> with the verbs \<^verbatim>\<open>%d\<close> and \<^verbatim>\<open>%07d\<close>.\<close>

fun digits :: "nat \<Rightarrow> string" where
  "digits n =
     (if n < 10 then [char_of (48 + n)]
      else digits (n div 10) @ [char_of (48 + n mod 10)])"

declare digits.simps [simp del]

definition fmt_d :: "int \<Rightarrow> string" where
  "fmt_d n = (if n < 0 then CHR ''-'' # digits (nat (- n)) else digits (nat n))"

definition zeroPad :: "nat \<Rightarrow> string \<Rightarrow> string" where
  "zeroPad w s = replicate (w - length s) CHR ''0'' @ s"

definition fmt_07d :: "int \<Rightarrow> string" where
  "fmt_07d n =
     (if n < 0 then CHR ''-'' # zeroPad 6 (digits (nat (- n))) else zeroPad 7 (digits (nat n)))"

text \<open>Lines 260 to 278.\<close>

definition drawSky :: "game \<Rightarrow> string \<Rightarrow> int \<Rightarrow> int \<Rightarrow> panic + string" where
  "drawSky g buf row horizon =
     thenDo
       (if row smod 3 = 0
        then
          (if length buf = 0 then Inl IntegerDivideByZero
           else
             let pos = (row * 17 + 11) smod int (length buf)
             in thenDo
                  (if pos \<ge> 0 \<and> pos < int (length buf) then bufSet buf pos CHR ''.'' else Inr buf)
                  (\<lambda>buf1.
                     let pos2 = (row * 31 + 7) smod int (length buf1)
                     in if pos2 \<ge> 0 \<and> pos2 < int (length buf1)
                        then bufSet buf1 pos2 CHR ''.'' else Inr buf1))
        else Inr buf)
       (\<lambda>buf2.
          if row = horizon - 1
          then forEach [0..<length buf2] (\<lambda>i b. bufSet b (int i) CHR ''_'') buf2
          else Inr buf2)"

text \<open>
  Lines 280 to 430, layer by layer. A counting loop \<^verbatim>\<open>for x := a; x <= b; x++\<close> runs
  over \<open>[a..b]\<close>; the obstacle loop \<^verbatim>\<open>for x := ox; x < ox+ow && x < g.width; x++\<close> runs
  over \<open>[ox..min (ox + ow) (width g) - 1]\<close>, its condition being false from the first
  \<open>x\<close> that reaches either bound.
\<close>

definition groundTexture :: "int \<Rightarrow> string \<Rightarrow> panic + string" where
  "groundTexture row buf =
     forEach [0..<length buf]
       (\<lambda>i b. if (int i + row) smod 5 = 0 then bufSet b (int i) CHR ''.'' else Inr b) buf"

definition trackSurface :: "int \<Rightarrow> int \<Rightarrow> string \<Rightarrow> panic + string" where
  "trackSurface left right buf = forEach [left..right] (\<lambda>x b. bufSet b x CHR '' '') buf"

definition rails :: "game \<Rightarrow> int \<Rightarrow> int \<Rightarrow> string \<Rightarrow> panic + string" where
  "rails g left right buf =
     thenDo
       (if left \<ge> 0 \<and> left < width g then bufSet buf left CHR ''|'' else Inr buf)
       (\<lambda>b. if right \<ge> 0 \<and> right < width g then bufSet b right CHR ''|'' else Inr b)"

definition laneDividers :: "game \<Rightarrow> int \<Rightarrow> int \<Rightarrow> int \<Rightarrow> int \<Rightarrow> string \<Rightarrow> panic + string" where
  "laneDividers g row tw left right buf =
     (let lw = real_of_int tw / real_of_int numLanes
      in forEach [1..numLanes - 1]
           (\<lambda>l b.
              let dx = left + go_int (real_of_int l * lw)
              in if dx > left \<and> dx < right \<and> dx < width g
                 then (let scrollRow = go_int (scrollOff g * 2) + row
                       in if scrollRow smod 3 \<noteq> 0 then bufSet b dx CHR '':'' else Inr b)
                 else Inr b)
           buf)"

definition crossTies :: "game \<Rightarrow> int \<Rightarrow> int \<Rightarrow> int \<Rightarrow> string \<Rightarrow> panic + string" where
  "crossTies g row left right buf =
     (let scrollRow = real_of_int row + scrollOff g * 3
      in if go_int scrollRow smod 4 = 0
         then forEach [left + 1..right - 1]
                (\<lambda>x b. thenDo (bufGet b x)
                          (\<lambda>c. if c = CHR '' '' then bufSet b x CHR ''-'' else Inr b))
                buf
         else Inr buf)"

text \<open>Lines 346 to 377: the body of the obstacle loop at index \<open>i\<close>.\<close>

definition drawObstacle :: "game \<Rightarrow> int \<Rightarrow> int \<Rightarrow> int \<Rightarrow> nat \<Rightarrow> string \<Rightarrow> panic + string" where
  "drawObstacle g row horizon center i buf =
     (let obs = obstacles g ! i
      in if \<not> obstacle.active obs \<or> obstacle.z obs < 5 / 10 then Inr buf
         else
           let obsDepth = 1 - obstacle.z obs / real_of_int farZ
           in if obsDepth < 0 \<or> obsDepth > 1 then Inr buf
              else
                let obsRow = horizon + go_int (obsDepth * real_of_int (height g - horizon))
                in if row \<ge> obsRow - 2 \<and> row \<le> obsRow
                   then
                     let obsTw = go_int (real_of_int trackWidth
                                          * (1 - obstacle.z obs / real_of_int farZ))
                     in if obsTw < 3 then Inr buf
                        else
                          let obsLeft = center - obsTw sdiv 2;
                              obsLW = real_of_int obsTw / real_of_int numLanes;
                              ox = obsLeft + go_int (real_of_int (obstacle.lane obs) * obsLW
                                                      + obsLW * (15 / 100));
                              ow0 = go_int (obsLW * (7 / 10));
                              ow = (if ow0 < 1 then 1 else ow0)
                          in forEach [ox..min (ox + ow) (width g) - 1]
                               (\<lambda>x b. if x \<ge> 0
                                       then (if row = obsRow - 2 then bufSet b x CHR ''#''
                                             else bufSet b x CHR ''#'')
                                       else Inr b)
                               buf
                   else Inr buf)"

text \<open>Lines 381 to 403: the body of the coin loop at index \<open>i\<close>.\<close>

definition drawCoin :: "game \<Rightarrow> int \<Rightarrow> int \<Rightarrow> int \<Rightarrow> nat \<Rightarrow> string \<Rightarrow> panic + string" where
  "drawCoin g row horizon center i buf =
     (let cn = coinPool g ! i
      in if \<not> coinObj.active cn \<or> coinObj.z cn < 5 / 10 then Inr buf
         else
           let coinDepth = 1 - coinObj.z cn / real_of_int farZ
           in if coinDepth < 0 \<or> coinDepth > 1 then Inr buf
              else
                let coinRow = horizon + go_int (coinDepth * real_of_int (height g - horizon))
                in if row = coinRow
                   then
                     let cnTw = go_int (real_of_int trackWidth
                                         * (1 - coinObj.z cn / real_of_int farZ))
                     in if cnTw < 3 then Inr buf
                        else
                          let cnLeft = center - cnTw sdiv 2;
                              cnLW = real_of_int cnTw / real_of_int numLanes;
                              cx = cnLeft + go_int (real_of_int (coinObj.lane cn) * cnLW
                                                     + cnLW * (5 / 10))
                          in if cx \<ge> 0 \<and> cx < width g then bufSet buf cx CHR ''o'' else Inr buf
                   else Inr buf)"

text \<open>Lines 405 to 427: the runner, three rows tall.\<close>

definition legs :: "string list" where
  "legs = [[CHR ''/'', CHR '' '', CHR 0x5C], ''| |'', [CHR 0x5C, CHR '' '', CHR ''/''], ''| |'']"

definition drawRunner :: "game \<Rightarrow> int \<Rightarrow> int \<Rightarrow> int \<Rightarrow> string \<Rightarrow> panic + string" where
  "drawRunner g row horizon center buf =
     (let runnerDepth = 85 / 100;
          runnerScreenRow = horizon + go_int (runnerDepth * real_of_int (height g - horizon));
          rTw = go_int (real_of_int trackWidth * runnerDepth);
          rLeft = center - rTw sdiv 2;
          rLW = real_of_int rTw / real_of_int numLanes;
          rx = rLeft + go_int (laneX g * rLW + rLW * (5 / 10))
      in if row = runnerScreenRow - 2
         then (if rx \<ge> 0 \<and> rx < width g then bufSet buf rx CHR ''O'' else Inr buf)
         else if row = runnerScreenRow - 1
         then placeStringBytes buf (rx - 1) [CHR ''/'', CHR ''|'', CHR 0x5C]
         else if row = runnerScreenRow
         then (let frm = go_int (elapsed g * 8) smod 4
               in if 0 \<le> frm \<and> frm < int (length legs)
                  then placeStringBytes buf (rx - 1) (legs ! nat frm)
                  else Inl ArrayIndexOutOfRange)
         else Inr buf)"

text \<open>
  \<^verbatim>\<open>drawGround\<close>. The quotient \<open>depth\<close> has the denominator \<open>height g - horizon\<close>, which
  is positive for every row \<open>render\<close> draws (\<open>horizon\<close> is \<open>height g sdiv 3\<close> and there is a
  row only when \<open>height g\<close> is positive).
\<close>

definition drawGround :: "game \<Rightarrow> string \<Rightarrow> int \<Rightarrow> int \<Rightarrow> int \<Rightarrow> panic + string" where
  "drawGround g buf row horizon trackLeft =
     (let depth = real_of_int (row - horizon) / real_of_int (height g - horizon)
      in if depth \<le> 0 then Inr buf
         else
           let tw0 = go_int (real_of_int trackWidth * depth);
               tw = (if tw0 < 3 then 3 else tw0);
               center = width g sdiv 2;
               left0 = center - tw sdiv 2;
               right0 = center + tw sdiv 2;
               left = (if left0 < 0 then 0 else left0);
               right = (if right0 \<ge> width g then width g - 1 else right0)
           in thenDo (groundTexture row buf) (\<lambda>b1.
              thenDo (trackSurface left right b1) (\<lambda>b2.
              thenDo (rails g left right b2) (\<lambda>b3.
              thenDo (laneDividers g row tw left right b3) (\<lambda>b4.
              thenDo (crossTies g row left right b4) (\<lambda>b5.
              thenDo (forEach [0..<length (obstacles g)] (drawObstacle g row horizon center) b5) (\<lambda>b6.
              thenDo (forEach [0..<length (coinPool g)] (drawCoin g row horizon center) b6) (\<lambda>b7.
              drawRunner g row horizon center b7))))))))"

text \<open>Lines 233 to 258: one row, with the HUD on the first two rows.\<close>

definition renderRow :: "game \<Rightarrow> int \<Rightarrow> int \<Rightarrow> int \<Rightarrow> panic + string" where
  "renderRow g row horizon trackLeft =
     (if width g < 0 then Inl MakeSliceLenOutOfRange
      else
        thenDo (forEach [0..<nat (width g)] (\<lambda>i b. bufSet b (int i) CHR '' '')
                  (replicate (nat (width g)) (CHR 0x00))) (\<lambda>buf.
        thenDo (if row < horizon then drawSky g buf row horizon
                else drawGround g buf row horizon trackLeft) (\<lambda>buf1.
        thenDo (if row = 0
                then (let hud = '' SCORE: '' @ fmt_07d (sint (score g)) @ '' ''
                      in placeString buf1 (width g - int (length hud) - 1) hud)
                else Inr buf1) (\<lambda>buf2.
        if row = 1
        then (let hud = '' COINS: '' @ fmt_d (sint (coins g)) @ '' ''
              in placeString buf2 (width g - int (length hud) - 1) hud)
        else Inr buf2))))"

text \<open>Lines 213 to 231. The returned slice is the \<open>frame\<close> field of the returned state.\<close>

definition renderStep :: "int \<Rightarrow> int \<Rightarrow> int \<Rightarrow> game \<Rightarrow> panic + game" where
  "renderStep horizon trackLeft row g =
     thenDo (renderRow g row horizon trackLeft) (\<lambda>line.
       let g1 = g\<lparr>frame := frame g @ line\<rparr>
       in Inr (if row < height g1 - 1 then g1\<lparr>frame := frame g1 @ [CHR 0x0D, CHR 0x0A]\<rparr> else g1))"

definition render :: "game \<Rightarrow> panic + game" where
  "render g =
     (let g0 = g\<lparr>frame := []\<rparr>;
          g1 = g0\<lparr>frame := frame g0 @ [CHR 0x1B, CHR ''['', CHR ''H'']\<rparr>;
          horizon = height g1 sdiv 3;
          trackLeft = (width g1 - trackWidth) sdiv 2
      in forEach [0..height g1 - 1] (renderStep horizon trackLeft) g1)"

section \<open>Auxiliary notions for the statements\<close>

text \<open>
  The definitions of this section are not functions of the program. Each of them names
  an expression or a loop of the program, and a lemma below proves that the program
  computes it.
\<close>

text \<open>
  What one pass of the obstacle loop and of the coin loop does to a single slot, the
  test under which the coin loop collects a coin (\<open>d\<close> is the distance moved in the tick,
  \<open>rl\<close> the runner's lane), and the number of coins a pass collects.
\<close>

definition movedObstacle :: "real \<Rightarrow> obstacle \<Rightarrow> obstacle" where
  "movedObstacle d ob =
     (if \<not> obstacle.active ob then ob
      else if obstacle.z ob - d < - 1
      then ob\<lparr>obstacle.z := obstacle.z ob - d, obstacle.active := False\<rparr>
      else ob\<lparr>obstacle.z := obstacle.z ob - d\<rparr>)"

definition collectable :: "real \<Rightarrow> int \<Rightarrow> coinObj \<Rightarrow> bool" where
  "collectable d rl c =
     (coinObj.active c \<and> 0 < coinObj.z c - d \<and> coinObj.z c - d < 2 \<and> coinObj.lane c = rl)"

definition movedCoin :: "real \<Rightarrow> int \<Rightarrow> coinObj \<Rightarrow> coinObj" where
  "movedCoin d rl c =
     (if \<not> coinObj.active c then c
      else if coinObj.z c - d < - 1 \<or> collectable d rl c
      then c\<lparr>coinObj.z := coinObj.z c - d, coinObj.active := False\<rparr>
      else c\<lparr>coinObj.z := coinObj.z c - d\<rparr>)"

definition collected :: "real \<Rightarrow> int \<Rightarrow> coinObj list \<Rightarrow> nat" where
  "collected d rl cs = length (filter (collectable d rl) cs)"

text \<open>The slot search of the two spawn functions: the first inactive entry takes \<open>v\<close>.\<close>

fun claimSlot :: "('a \<Rightarrow> bool) \<Rightarrow> 'a \<Rightarrow> 'a list \<Rightarrow> 'a list" where
  "claimSlot act v [] = []"
| "claimSlot act v (x # xs) = (if \<not> act x then v # xs else x # claimSlot act v xs)"

definition newObstacle :: "int \<Rightarrow> obstacle" where
  "newObstacle ol = \<lparr>obstacle.lane = ol, obstacle.z = real_of_int spawnZ, obstacle.active = True\<rparr>"

definition newCoin :: "int \<Rightarrow> int \<Rightarrow> coinObj" where
  "newCoin cl j =
     \<lparr>coinObj.lane = cl,
      coinObj.z = real_of_int spawnZ + real_of_int j * (15 / 10),
      coinObj.active = True\<rparr>"

definition coinTrail :: "int \<Rightarrow> coinObj list \<Rightarrow> coinObj list" where
  "coinTrail cl cs =
     claimSlot coinObj.active (newCoin cl 2)
       (claimSlot coinObj.active (newCoin cl 1)
         (claimSlot coinObj.active (newCoin cl 0) cs))"

text \<open>
  The danger flag of a lane and the coin test of the lane loop, as predicates of the
  state, and the lane the lane loop leaves in \<^verbatim>\<open>bestLane\<close>.
\<close>

definition laneHit :: "game \<Rightarrow> int \<Rightarrow> bool" where
  "laneHit g l =
     (\<exists>ob \<in> set (obstacles g). obstacle.active ob \<and> 0 < obstacle.z ob
        \<and> obstacle.z ob < real_of_int dodgeLookahead \<and> obstacle.lane ob = l)"

definition laneCoin :: "game \<Rightarrow> int \<Rightarrow> bool" where
  "laneCoin g l =
     (\<exists>c \<in> set (coinPool g). coinObj.active c \<and> coinObj.lane c = l
        \<and> coinObj.z c < real_of_int dodgeLookahead)"

text \<open>The lanes a state must have for \<open>autoDodge\<close> to index \<^verbatim>\<open>danger\<close> in range.\<close>

definition lanesValid :: "game \<Rightarrow> bool" where
  "lanesValid g =
     (0 \<le> targetLane g \<and> targetLane g < numLanes
      \<and> list_all (\<lambda>ob. obstacle.active ob \<longrightarrow> 0 \<le> obstacle.lane ob \<and> obstacle.lane ob < numLanes)
           (obstacles g))"

definition pickLane :: "game \<Rightarrow> int" where
  "pickLane g =
     fold (\<lambda>l b. if laneHit g l then b else if laneCoin g l then l else if b = - 1 then l else b)
       [0, 1, 2] (- 1)"

text \<open>
  The state \<open>update\<close> hands to \<open>autoDodge\<close>, the speed ramp as a function of the elapsed
  time, and the spawn interval as a function of the speed.
\<close>

definition beforeDodge :: "real \<Rightarrow> int \<Rightarrow> int \<Rightarrow> game \<Rightarrow> game" where
  "beforeDodge dt ol cl g =
     coinTimerTick dt cl
       (obstacleTimer dt ol
         (moveCoins dt
           (moveObstacles dt
             (advanceClock dt g))))"

definition rampSpeed :: "real \<Rightarrow> real" where
  "rampSpeed e = (if 6 + e * (5 / 100) > 16 then 16 else 6 + e * (5 / 100))"

definition spawnInterval :: "real \<Rightarrow> real" where
  "spawnInterval s = (if 2 - s * (6 / 100) < 7 / 10 then 7 / 10 else 2 - s * (6 / 100))"

text \<open>\<^verbatim>\<open>rand.Intn(numLanes)\<close> returns a lane in \<open>0..numLanes - 1\<close>.\<close>

definition drawsInRange :: "int \<Rightarrow> int \<Rightarrow> bool" where
  "drawsInRange ol cl = (0 \<le> ol \<and> ol < numLanes \<and> 0 \<le> cl \<and> cl < numLanes)"

text \<open>What \<open>autoDodge\<close> returns on a state with valid lanes.\<close>

definition dodged :: "game \<Rightarrow> game" where
  "dodged b =
     (if \<not> laneHit b (targetLane b) then b
      else if pickLane b \<ge> 0 then b\<lparr>targetLane := pickLane b\<rparr> else b)"

text \<open>The depth bounds that hold along every run from \<open>newGame\<close>.\<close>

definition depthsBounded :: "game \<Rightarrow> bool" where
  "depthsBounded g =
     (list_all (\<lambda>ob. obstacle.active ob \<longrightarrow>
                  - 1 \<le> obstacle.z ob \<and> obstacle.z ob \<le> real_of_int spawnZ) (obstacles g)
      \<and> list_all (\<lambda>c. coinObj.active c \<longrightarrow>
                  - 1 \<le> coinObj.z c \<and> coinObj.z c \<le> real_of_int spawnZ + 3) (coinPool g))"

text \<open>
  The result of drawing into a row buffer of length \<open>n\<close>: \<open>bufResult\<close> is a buffer of the
  same length, \<open>rowResult\<close> also admits the panic of \<^verbatim>\<open>legs[frame]\<close> when the elapsed time
  is negative.
\<close>

definition bufResult :: "nat \<Rightarrow> panic + string \<Rightarrow> bool" where
  "bufResult n r = (case r of Inl e \<Rightarrow> False | Inr b \<Rightarrow> length b = n)"

definition rowResult :: "game \<Rightarrow> nat \<Rightarrow> panic + string \<Rightarrow> bool" where
  "rowResult g n r =
     (case r of
        Inl e \<Rightarrow> e = ArrayIndexOutOfRange \<and> elapsed g < 0
      | Inr b \<Rightarrow> length b = n)"

text \<open>
  The quantities the two entity passes of \<open>drawGround\<close> compute from an entity's depth
  \<open>zz\<close>: the depth fraction, the screen row, the projected track width, and the test under
  which the pass goes on to draw (\<open>act\<close> is the entity's \<open>active\<close> flag).
\<close>

definition depthFraction :: "real \<Rightarrow> real" where
  "depthFraction zz = 1 - zz / real_of_int farZ"

definition entityRow :: "game \<Rightarrow> int \<Rightarrow> real \<Rightarrow> int" where
  "entityRow g horizon zz =
     horizon + go_int (depthFraction zz * real_of_int (height g - horizon))"

definition entityTw :: "real \<Rightarrow> int" where
  "entityTw zz = go_int (real_of_int trackWidth * (1 - zz / real_of_int farZ))"

definition entityDrawn :: "bool \<Rightarrow> real \<Rightarrow> bool" where
  "entityDrawn act zz =
     (act \<and> 5 / 10 \<le> zz \<and> 0 \<le> depthFraction zz \<and> depthFraction zz \<le> 1 \<and> 3 \<le> entityTw zz)"

text \<open>The column of a coin, and the first column and the width of an obstacle block.\<close>

definition coinColumn :: "int \<Rightarrow> coinObj \<Rightarrow> int" where
  "coinColumn center cn =
     center - entityTw (coinObj.z cn) sdiv 2
       + go_int (real_of_int (coinObj.lane cn)
                   * (real_of_int (entityTw (coinObj.z cn)) / real_of_int numLanes)
                 + real_of_int (entityTw (coinObj.z cn)) / real_of_int numLanes * (5 / 10))"

definition obstacleLeft :: "int \<Rightarrow> obstacle \<Rightarrow> int" where
  "obstacleLeft center obs =
     center - entityTw (obstacle.z obs) sdiv 2
       + go_int (real_of_int (obstacle.lane obs)
                   * (real_of_int (entityTw (obstacle.z obs)) / real_of_int numLanes)
                 + real_of_int (entityTw (obstacle.z obs)) / real_of_int numLanes * (15 / 100))"

definition obstacleWidth :: "obstacle \<Rightarrow> int" where
  "obstacleWidth obs =
     (let ow0 = go_int (real_of_int (entityTw (obstacle.z obs)) / real_of_int numLanes * (7 / 10))
      in if ow0 < 1 then 1 else ow0)"

text \<open>
  The row and the column of the runner sprite as \<open>drawRunner\<close> computes them, the cells of
  a row the sprite writes, the cells the HUD text writes, and the bytes of a frame that
  hold screen row \<open>row\<close> (after the three bytes of the cursor-home prefix, each row takes
  \<open>width g\<close> bytes and the two bytes of the row separator).
\<close>

definition runnerRow :: "game \<Rightarrow> int \<Rightarrow> int" where
  "runnerRow g horizon = horizon + go_int (85 / 100 * real_of_int (height g - horizon))"

definition runnerColumn :: "game \<Rightarrow> int \<Rightarrow> int" where
  "runnerColumn g center =
     center - go_int (real_of_int trackWidth * (85 / 100)) sdiv 2
       + go_int (laneX g * (real_of_int (go_int (real_of_int trackWidth * (85 / 100)))
                              / real_of_int numLanes)
                 + real_of_int (go_int (real_of_int trackWidth * (85 / 100)))
                     / real_of_int numLanes * (5 / 10))"



definition frameRow :: "game \<Rightarrow> string \<Rightarrow> int \<Rightarrow> string" where
  "frameRow g fr row = take (nat (width g)) (drop (3 + nat row * (nat (width g) + 2)) fr)"

section \<open>Example states\<close>

text \<open>A game whose two pools have no free slot.\<close>

definition fullGame :: game where
  "fullGame =
     (newGame 80 24)
       \<lparr>obstacles := replicate 20 \<lparr>obstacle.lane = 1, obstacle.z = 10, obstacle.active = True\<rparr>,
        coinPool := replicate 30 \<lparr>coinObj.lane = 2, coinObj.z = 12, coinObj.active = True\<rparr>\<rparr>"

text \<open>An obstacle five units ahead in the target lane, the other lanes free.\<close>

definition dodgeGame :: game where
  "dodgeGame =
     (newGame 80 24)
       \<lparr>obstacles := \<lparr>obstacle.lane = 1, obstacle.z = 5, obstacle.active = True\<rparr>
            # replicate 19 \<lparr>obstacle.lane = 0, obstacle.z = 0, obstacle.active = False\<rparr>\<rparr>"

text \<open>
  The runner between lanes: the lane transition has just clamped \<open>laneX\<close> to the target
  lane 0 and \<open>runnerLane\<close> is still 1. \<open>snapB\<close> differs from \<open>snapA\<close> in the obstacle pool
  only: it has an obstacle five units ahead in lane 0.
\<close>

definition snapA :: game where
  "snapA = (newGame 80 24)\<lparr>targetLane := 0, laneX := 0\<rparr>"

definition snapB :: game where
  "snapB =
     snapA\<lparr>obstacles := \<lparr>obstacle.lane = 0, obstacle.z = 5, obstacle.active = True\<rparr>
            # replicate 19 \<lparr>obstacle.lane = 0, obstacle.z = 0, obstacle.active = False\<rparr>\<rparr>"

text \<open>A coin one unit ahead in the runner's lane 0.\<close>

definition coinGame :: game where
  "coinGame =
     (newGame 80 24)
       \<lparr>runnerLane := 0, targetLane := 0, laneX := 0,
        coinPool := \<lparr>coinObj.lane = 0, coinObj.z = 1, coinObj.active = True\<rparr>
            # replicate 29 \<lparr>coinObj.lane = 0, coinObj.z = 0, coinObj.active = False\<rparr>\<rparr>"

text \<open>The scenario of one obstacle in lane 1 at depth 10 in a fresh game.\<close>

definition scenarioGame :: game where
  "scenarioGame =
     (newGame 80 24)
       \<lparr>obstacles := \<lparr>obstacle.lane = 1, obstacle.z = 10, obstacle.active = True\<rparr>
            # replicate 19 \<lparr>obstacle.lane = 0, obstacle.z = 0, obstacle.active = False\<rparr>\<rparr>"



text \<open>Two coins in the runner's lane 0, one and one and a half units ahead.\<close>

definition twoCoinGame :: game where
  "twoCoinGame =
     (newGame 80 24)
       \<lparr>runnerLane := 0, targetLane := 0, laneX := 0,
        coinPool := \<lparr>coinObj.lane = 0, coinObj.z = 1, coinObj.active = True\<rparr>
            # \<lparr>coinObj.lane = 0, coinObj.z = 3 / 2, coinObj.active = True\<rparr>
            # replicate 28 \<lparr>coinObj.lane = 0, coinObj.z = 0, coinObj.active = False\<rparr>\<rparr>"

text \<open>
  A coin at the spawn depth 19, and a coin at depth 17 in a viewport six rows high,
  both in lane 1.
\<close>

definition farGame :: game where
  "farGame =
     (newGame 80 24)
       \<lparr>coinPool := \<lparr>coinObj.lane = 1, coinObj.z = 19, coinObj.active = True\<rparr>
            # replicate 29 \<lparr>coinObj.lane = 0, coinObj.z = 0, coinObj.active = False\<rparr>\<rparr>"

definition horizonGame :: game where
  "horizonGame =
     (newGame 80 6)
       \<lparr>coinPool := \<lparr>coinObj.lane = 1, coinObj.z = 17, coinObj.active = True\<rparr>
            # replicate 29 \<lparr>coinObj.lane = 0, coinObj.z = 0, coinObj.active = False\<rparr>\<rparr>"

text \<open>A coin in lane 1 at depth 6, which projects onto the cell of the runner's head.\<close>

definition coveredGame :: game where
  "coveredGame =
     (newGame 80 24)
       \<lparr>coinPool := \<lparr>coinObj.lane = 1, coinObj.z = 6, coinObj.active = True\<rparr>
            # replicate 29 \<lparr>coinObj.lane = 0, coinObj.z = 0, coinObj.active = False\<rparr>\<rparr>"

section \<open>Pool exhaustion\<close>

lemma spawnObstacleFrom_full:
  "\<forall>i \<in> set idx. obstacle.active (obstacles g ! i) \<Longrightarrow> spawnObstacleFrom ol idx g = g"
  by (induction idx) simp_all

lemma spawnCoinFrom_full:
  "\<forall>i \<in> set idx. coinObj.active (coinPool g ! i) \<Longrightarrow> spawnCoinFrom cl j idx g = g"
  by (induction idx) simp_all

lemma spawnObstacle_full:
  assumes "\<forall>ob \<in> set (obstacles g). obstacle.active ob"
  shows "spawnObstacle ol g = g"
  unfolding spawnObstacle_def using assms
  by (intro spawnObstacleFrom_full) simp

lemma spawnCoin_full:
  assumes "\<forall>c \<in> set (coinPool g). coinObj.active c"
  shows "spawnCoin cl g = g"
proof -
  have "spawnCoinFrom cl j [0..<length (coinPool g)] g = g" for j
    using assms by (intro spawnCoinFrom_full) simp
  then show ?thesis
    by (simp add: spawnCoin_def)
qed

text \<open>
  Claim C9. When every slot of the obstacle pool is active, \<open>spawnObstacle\<close> returns the
  game state it was given, and when every slot of the coin pool is active so does
  \<open>spawnCoin\<close>: no slot and no other field changes, whatever lane was drawn. Both
  functions are total and return a plain state, so there is no fault and no growth.
\<close>

theorem spawn_full_pool_noop:
  "((\<forall>ob \<in> set (obstacles g). obstacle.active ob) \<longrightarrow> spawnObstacle ol g = g)
   \<and> ((\<forall>c \<in> set (coinPool g). coinObj.active c) \<longrightarrow> spawnCoin cl g = g)"
  using spawnObstacle_full spawnCoin_full by blast

theorem spawn_full_pool_noop_witness:
  "length (obstacles fullGame) = 20 \<and> list_all obstacle.active (obstacles fullGame)
   \<and> length (coinPool fullGame) = 30 \<and> list_all coinObj.active (coinPool fullGame)
   \<and> spawnObstacle 0 fullGame = fullGame \<and> spawnCoin 2 fullGame = fullGame"
  using spawn_full_pool_noop [of fullGame 0 2]
  by (simp add: fullGame_def newGame_def list_all_iff)

section \<open>The two movement loops\<close>

lemma map_prefix_step:
  assumes "k < length xs"
  shows "(map f (take k xs) @ drop k xs)[k := f ((map f (take k xs) @ drop k xs) ! k)]
         = map f (take (Suc k) xs) @ drop (Suc k) xs"
proof -
  have "(map f (take k xs) @ drop k xs) ! k = xs ! k"
    using assms by (simp add: nth_append)
  moreover have "(map f (take k xs) @ drop k xs)[k := v] = map f (take k xs) @ v # drop (Suc k) xs" for v
    using assms by (simp add: list_update_append Cons_nth_drop_Suc [symmetric])
  ultimately show ?thesis
    using assms by (simp add: take_Suc_conv_app_nth)
qed

lemma obstacleStep_eq:
  "i < length (obstacles g) \<Longrightarrow>
   obstacleStep dt i g =
     g\<lparr>obstacles := (obstacles g)[i := movedObstacle (speed g * dt) (obstacles g ! i)]\<rparr>"
  by (simp add: obstacleStep_def movedObstacle_def Let_def)

lemma obstacle_fold:
  "k \<le> length (obstacles g) \<Longrightarrow>
   fold (obstacleStep dt) [0..<k] g =
     g\<lparr>obstacles := map (movedObstacle (speed g * dt)) (take k (obstacles g)) @ drop k (obstacles g)\<rparr>"
proof (induction k)
  case 0
  then show ?case by simp
next
  case (Suc k)
  then have k: "k < length (obstacles g)" by simp
  have "fold (obstacleStep dt) [0..<Suc k] g = obstacleStep dt k (fold (obstacleStep dt) [0..<k] g)"
    by simp
  also have "\<dots> = obstacleStep dt k (g\<lparr>obstacles := map (movedObstacle (speed g * dt)) (take k (obstacles g)) @ drop k (obstacles g)\<rparr>)"
    using Suc.IH k by simp
  also have "\<dots> = g\<lparr>obstacles := map (movedObstacle (speed g * dt)) (take (Suc k) (obstacles g)) @ drop (Suc k) (obstacles g)\<rparr>"
    using k map_prefix_step [OF k, of "movedObstacle (speed g * dt)"] by (simp add: obstacleStep_eq)
  finally show ?case .
qed

lemma moveObstacles_map:
  "moveObstacles dt g = g\<lparr>obstacles := map (movedObstacle (speed g * dt)) (obstacles g)\<rparr>"
  by (simp add: moveObstacles_def obstacle_fold)


lemma coinStep_eq:
  "i < length (coinPool g) \<Longrightarrow>
   coinStep dt i g =
     g\<lparr>coinPool := (coinPool g)[i := movedCoin (speed g * dt) (runnerLane g) (coinPool g ! i)],
       coins := coins g + of_bool (collectable (speed g * dt) (runnerLane g) (coinPool g ! i)),
       score := score g + 50 * of_bool (collectable (speed g * dt) (runnerLane g) (coinPool g ! i))\<rparr>"
  by (simp add: coinStep_def movedCoin_def collectable_def Let_def)

lemma collected_snoc:
  "collected d rl (cs @ [c]) = collected d rl cs + of_bool (collectable d rl c)"
  by (simp add: collected_def)

lemma coin_fold:
  "k \<le> length (coinPool g) \<Longrightarrow>
   fold (coinStep dt) [0..<k] g =
     g\<lparr>coinPool := map (movedCoin (speed g * dt) (runnerLane g)) (take k (coinPool g)) @ drop k (coinPool g),
       coins := coins g + of_nat (collected (speed g * dt) (runnerLane g) (take k (coinPool g))),
       score := score g + 50 * of_nat (collected (speed g * dt) (runnerLane g) (take k (coinPool g)))\<rparr>"
proof (induction k)
  case 0
  then show ?case by (simp add: collected_def)
next
  case (Suc k)
  then have k: "k < length (coinPool g)" by simp
  let ?f = "movedCoin (speed g * dt) (runnerLane g)"
  let ?L = "map ?f (take k (coinPool g)) @ drop k (coinPool g)"
  have nth: "?L ! k = coinPool g ! k"
    using k by (simp add: nth_append)
  have "fold (coinStep dt) [0..<Suc k] g = coinStep dt k (fold (coinStep dt) [0..<k] g)"
    by simp
  also have "\<dots> = coinStep dt k (g\<lparr>coinPool := ?L,
       coins := coins g + of_nat (collected (speed g * dt) (runnerLane g) (take k (coinPool g))),
       score := score g + 50 * of_nat (collected (speed g * dt) (runnerLane g) (take k (coinPool g)))\<rparr>)"
    using Suc.IH k by simp
  also have "\<dots> = g\<lparr>coinPool := map ?f (take (Suc k) (coinPool g)) @ drop (Suc k) (coinPool g),
       coins := coins g + of_nat (collected (speed g * dt) (runnerLane g) (take (Suc k) (coinPool g))),
       score := score g + 50 * of_nat (collected (speed g * dt) (runnerLane g) (take (Suc k) (coinPool g)))\<rparr>"
    using k map_prefix_step [OF k, of ?f] nth
    by (simp add: coinStep_eq take_Suc_conv_app_nth collected_snoc algebra_simps)
  finally show ?case .
qed

lemma moveCoins_map:
  "moveCoins dt g =
     g\<lparr>coinPool := map (movedCoin (speed g * dt) (runnerLane g)) (coinPool g),
       coins := coins g + of_nat (collected (speed g * dt) (runnerLane g) (coinPool g)),
       score := score g + 50 * of_nat (collected (speed g * dt) (runnerLane g) (coinPool g))\<rparr>"
  by (simp add: moveCoins_def coin_fold)

section \<open>The two spawn functions\<close>

lemma length_claimSlot [simp]: "length (claimSlot act v xs) = length xs"
  by (induction xs) simp_all

lemma set_claimSlot: "set (claimSlot act v xs) \<subseteq> insert v (set xs)"
  by (induction xs) auto

lemma claimSlot_nth:
  "i < length xs \<Longrightarrow>
   claimSlot act v xs ! i = xs ! i \<or> (claimSlot act v xs ! i = v \<and> \<not> act (xs ! i))"
proof (induction xs arbitrary: i)
  case Nil
  then show ?case by simp
next
  case (Cons x xs)
  then show ?case by (cases i) auto
qed

lemma claimSlot_keeps_active:
  "i < length xs \<Longrightarrow> act (xs ! i) \<Longrightarrow> claimSlot act v xs ! i = xs ! i"
  using claimSlot_nth [of i xs act v] by blast

lemma claimSlot_full: "\<forall>x \<in> set xs. act x \<Longrightarrow> claimSlot act v xs = xs"
  by (induction xs) simp_all

lemma spawnObstacleFrom_suffix:
  "k \<le> length (obstacles g) \<Longrightarrow>
   spawnObstacleFrom ol [k..<length (obstacles g)] g =
     g\<lparr>obstacles := take k (obstacles g)
                     @ claimSlot obstacle.active (newObstacle ol) (drop k (obstacles g))\<rparr>"
proof (induction "length (obstacles g) - k" arbitrary: k)
  case 0
  then show ?case by simp
next
  case (Suc m)
  then have k: "k < length (obstacles g)" by simp
  have idx: "[k..<length (obstacles g)] = k # [Suc k..<length (obstacles g)]"
    using k by (simp add: upt_conv_Cons)
  have dr: "drop k (obstacles g) = obstacles g ! k # drop (Suc k) (obstacles g)"
    using k by (simp add: Cons_nth_drop_Suc)
  show ?case
  proof (cases "obstacle.active (obstacles g ! k)")
    case True
    have "m = length (obstacles g) - Suc k" using Suc.hyps(2) by simp
    then have "spawnObstacleFrom ol [Suc k..<length (obstacles g)] g =
       g\<lparr>obstacles := take (Suc k) (obstacles g)
                     @ claimSlot obstacle.active (newObstacle ol) (drop (Suc k) (obstacles g))\<rparr>"
      using Suc.hyps(1) [of "Suc k"] k by simp
    then show ?thesis
      using True k by (simp add: idx dr take_Suc_conv_app_nth)
  next
    case False
    then show ?thesis
      using k by (simp add: idx dr newObstacle_def upd_conv_take_nth_drop)
  qed
qed

lemma spawnObstacle_claim:
  "spawnObstacle ol g = g\<lparr>obstacles := claimSlot obstacle.active (newObstacle ol) (obstacles g)\<rparr>"
  using spawnObstacleFrom_suffix [of 0 g ol] by (simp add: spawnObstacle_def)

lemma spawnCoinFrom_suffix:
  "k \<le> length (coinPool g) \<Longrightarrow>
   spawnCoinFrom cl j [k..<length (coinPool g)] g =
     g\<lparr>coinPool := take k (coinPool g)
                    @ claimSlot coinObj.active (newCoin cl j) (drop k (coinPool g))\<rparr>"
proof (induction "length (coinPool g) - k" arbitrary: k)
  case 0
  then show ?case by simp
next
  case (Suc m)
  then have k: "k < length (coinPool g)" by simp
  have idx: "[k..<length (coinPool g)] = k # [Suc k..<length (coinPool g)]"
    using k by (simp add: upt_conv_Cons)
  have dr: "drop k (coinPool g) = coinPool g ! k # drop (Suc k) (coinPool g)"
    using k by (simp add: Cons_nth_drop_Suc)
  show ?case
  proof (cases "coinObj.active (coinPool g ! k)")
    case True
    have "m = length (coinPool g) - Suc k" using Suc.hyps(2) by simp
    then have "spawnCoinFrom cl j [Suc k..<length (coinPool g)] g =
       g\<lparr>coinPool := take (Suc k) (coinPool g)
                     @ claimSlot coinObj.active (newCoin cl j) (drop (Suc k) (coinPool g))\<rparr>"
      using Suc.hyps(1) [of "Suc k"] k by simp
    then show ?thesis
      using True k by (simp add: idx dr take_Suc_conv_app_nth)
  next
    case False
    then show ?thesis
      using k by (simp add: idx dr newCoin_def upd_conv_take_nth_drop)
  qed
qed

lemma spawnCoinFrom_claim:
  "spawnCoinFrom cl j [0..<length (coinPool g)] g =
     g\<lparr>coinPool := claimSlot coinObj.active (newCoin cl j) (coinPool g)\<rparr>"
  using spawnCoinFrom_suffix [of 0 g cl j] by simp

lemma spawnCoin_trail:
  "spawnCoin cl g = g\<lparr>coinPool := coinTrail cl (coinPool g)\<rparr>"
  by (simp add: spawnCoin_def spawnCoinFrom_claim coinTrail_def)

section \<open>Sequencing and loops that may panic\<close>

lemma thenDo_Inr [simp]: "thenDo (Inr v) f = f v"
  by (simp add: thenDo_def)

lemma thenDo_Inl [simp]: "thenDo (Inl e) f = Inl e"
  by (simp add: thenDo_def)

lemma thenDo_eq_Inr: "thenDo m f = Inr r \<longleftrightarrow> (\<exists>v. m = Inr v \<and> f v = Inr r)"
  by (cases m) simp_all

lemma forEach_rule:
  assumes "I s"
    and "\<And>i t. i \<in> set xs \<Longrightarrow> I t \<Longrightarrow> (case body i t of Inl e \<Rightarrow> E e | Inr t' \<Rightarrow> I t')"
  shows "case forEach xs body s of Inl e \<Rightarrow> E e | Inr s' \<Rightarrow> I s'"
  using assms
proof (induction xs arbitrary: s)
  case Nil
  then show ?case by simp
next
  case (Cons x xs)
  have step: "case body x s of Inl e \<Rightarrow> E e | Inr t' \<Rightarrow> I t'"
    using Cons.prems by simp
  show ?case
  proof (cases "body x s")
    case (Inl e)
    then show ?thesis using step by simp
  next
    case (Inr t)
    then have "I t" using step by simp
    then have "case forEach xs body t of Inl e \<Rightarrow> E e | Inr s' \<Rightarrow> I s'"
      using Cons.IH Cons.prems(2) by simp
    then show ?thesis using Inr by simp
  qed
qed

lemma forEach_total:
  assumes "I s"
    and "\<And>i t. i \<in> set xs \<Longrightarrow> I t \<Longrightarrow> \<exists>t'. body i t = Inr t' \<and> I t'"
  shows "\<exists>s'. forEach xs body s = Inr s' \<and> I s'"
proof -
  have "case forEach xs body s of Inl e \<Rightarrow> False | Inr s' \<Rightarrow> I s'"
  proof (rule forEach_rule [where I = I])
    show "I s" by fact
  next
    fix i t assume "i \<in> set xs" "I t"
    then obtain t' where "body i t = Inr t'" "I t'" using assms(2) by blast
    then show "case body i t of Inl e \<Rightarrow> False | Inr t' \<Rightarrow> I t'" by simp
  qed
  then show ?thesis by (cases "forEach xs body s") simp_all
qed

section \<open>The dodge heuristic\<close>

lemma dangerStep_cases:
  "dangerStep g i d = Inr d' \<Longrightarrow>
   length d' = length d \<and>
   (\<forall>l < length d. d' ! l =
      (d ! l \<or> (obstacle.active (obstacles g ! i) \<and> 0 < obstacle.z (obstacles g ! i)
                 \<and> obstacle.z (obstacles g ! i) < real_of_int dodgeLookahead
                 \<and> obstacle.lane (obstacles g ! i) = int l)))"
  by (auto simp: dangerStep_def nth_list_update split: if_splits)

lemma dangerLoop_char:
  "forEach idx (dangerStep g) d = Inr d' \<Longrightarrow>
   length d' = length d \<and>
   (\<forall>l < length d. d' ! l =
      (d ! l \<or> (\<exists>i \<in> set idx. obstacle.active (obstacles g ! i) \<and> 0 < obstacle.z (obstacles g ! i)
                 \<and> obstacle.z (obstacles g ! i) < real_of_int dodgeLookahead
                 \<and> obstacle.lane (obstacles g ! i) = int l)))"
proof (induction idx arbitrary: d)
  case Nil
  then show ?case by simp
next
  case (Cons i idx)
  from Cons.prems obtain d1 where s1: "dangerStep g i d = Inr d1"
    and s2: "forEach idx (dangerStep g) d1 = Inr d'"
    by (auto simp: thenDo_eq_Inr)
  note a = dangerStep_cases [OF s1] and b = Cons.IH [OF s2]
  show ?case
  proof (intro conjI allI impI)
    show "length d' = length d" using a b by simp
  next
    fix l assume l: "l < length d"
    then have "d' ! l = (d1 ! l \<or> (\<exists>i \<in> set idx. obstacle.active (obstacles g ! i) \<and> 0 < obstacle.z (obstacles g ! i)
                 \<and> obstacle.z (obstacles g ! i) < real_of_int dodgeLookahead
                 \<and> obstacle.lane (obstacles g ! i) = int l))"
      using a b by simp
    moreover have "d1 ! l = (d ! l \<or> (obstacle.active (obstacles g ! i) \<and> 0 < obstacle.z (obstacles g ! i)
                 \<and> obstacle.z (obstacles g ! i) < real_of_int dodgeLookahead
                 \<and> obstacle.lane (obstacles g ! i) = int l))"
      using a l by simp
    ultimately show "d' ! l = (d ! l \<or> (\<exists>i \<in> set (i # idx). obstacle.active (obstacles g ! i) \<and> 0 < obstacle.z (obstacles g ! i)
                 \<and> obstacle.z (obstacles g ! i) < real_of_int dodgeLookahead
                 \<and> obstacle.lane (obstacles g ! i) = int l))"
      by auto
  qed
qed

lemma ex_nth_iff: "(\<exists>i \<in> set [0..<length xs]. P (xs ! i)) \<longleftrightarrow> (\<exists>x \<in> set xs. P x)"
proof
  assume "\<exists>i \<in> set [0..<length xs]. P (xs ! i)"
  then obtain i where "i < length xs" "P (xs ! i)" by auto
  then show "\<exists>x \<in> set xs. P x" using nth_mem by blast
next
  assume "\<exists>x \<in> set xs. P x"
  then obtain i where "i < length xs" "P (xs ! i)" by (auto simp: in_set_conv_nth)
  then show "\<exists>i \<in> set [0..<length xs]. P (xs ! i)" by auto
qed

lemma dangerFlags_char:
  assumes "dangerFlags g = Inr d"
  shows "length d = 3" and "l < 3 \<Longrightarrow> d ! l = laneHit g (int l)"
proof -
  note c = dangerLoop_char [OF assms [unfolded dangerFlags_def]]
  show "length d = 3" using c by (simp add: numLanes_def)
  assume l: "l < 3"
  then have "d ! l = (\<exists>i \<in> set [0..<length (obstacles g)]. obstacle.active (obstacles g ! i) \<and> 0 < obstacle.z (obstacles g ! i)
                 \<and> obstacle.z (obstacles g ! i) < real_of_int dodgeLookahead
                 \<and> obstacle.lane (obstacles g ! i) = int l)"
    using c by (simp add: numLanes_def)
  also have "\<dots> = laneHit g (int l)"
    unfolding laneHit_def
    using ex_nth_iff [of "obstacles g" "\<lambda>ob. obstacle.active ob \<and> 0 < obstacle.z ob
        \<and> obstacle.z ob < real_of_int dodgeLookahead \<and> obstacle.lane ob = int l"] by simp
  finally show "d ! l = laneHit g (int l)" .
qed

lemma lanes_upto: "[0..numLanes - 1] = [0, 1, 2]"
  by (simp add: numLanes_def upto.simps)

lemma scan_fold:
  "fold (\<lambda>i b. if P i then l else b) idx b = (if \<exists>i \<in> set idx. P i then l else b)"
  by (induction idx arbitrary: b) auto

lemma coinScan_char: "coinScan g l b = (if laneCoin g l then l else b)"
  unfolding coinScan_def laneCoin_def scan_fold
  using ex_nth_iff [of "coinPool g" "\<lambda>c. coinObj.active c \<and> coinObj.lane c = l
        \<and> coinObj.z c < real_of_int dodgeLookahead"] by simp

lemma laneStep_char:
  "laneStep g d l b =
     (if d ! nat l then b else if laneCoin g l then l else if b = - 1 then l else b)"
  by (simp add: laneStep_def coinScan_char)

lemma bestLane_cases:
  assumes "r = fold (laneStep g d) [0..numLanes - 1] (- 1)"
  shows "(r = - 1 \<and> d ! 0 \<and> d ! 1 \<and> d ! 2) \<or> (0 \<le> r \<and> r < 3 \<and> \<not> d ! nat r)"
  unfolding assms lanes_upto
  by (simp add: laneStep_char)

lemma dangerFlags_total:
  assumes "lanesValid g"
  shows "\<exists>d. dangerFlags g = Inr d"
proof -
  have "\<exists>d'. forEach [0..<length (obstacles g)] (dangerStep g) (replicate (nat numLanes) False) = Inr d'
          \<and> length d' = 3"
  proof (rule forEach_total [where I = "\<lambda>d. length d = 3"])
    show "length (replicate (nat numLanes) False) = 3" by (simp add: numLanes_def)
  next
    fix i and t :: "bool list"
    assume i: "i \<in> set [0..<length (obstacles g)]" and t: "length t = 3"
    then have "obstacles g ! i \<in> set (obstacles g)" by simp
    then have "obstacle.active (obstacles g ! i) \<longrightarrow>
        0 \<le> obstacle.lane (obstacles g ! i) \<and> obstacle.lane (obstacles g ! i) < 3"
      using assms by (simp add: lanesValid_def list_all_iff numLanes_def)
    then show "\<exists>t'. dangerStep g i t = Inr t' \<and> length t' = 3"
      using t by (simp add: dangerStep_def)
  qed
  then show ?thesis by (auto simp: dangerFlags_def)
qed

lemma autoDodge_eval:
  assumes "lanesValid g"
  shows "autoDodge g =
           Inr (if \<not> laneHit g (targetLane g) then g
                else if pickLane g \<ge> 0 then g\<lparr>targetLane := pickLane g\<rparr> else g)"
proof -
  obtain d where d: "dangerFlags g = Inr d" using dangerFlags_total [OF assms] by blast
  note c = dangerFlags_char [OF d]
  have t: "0 \<le> targetLane g" "targetLane g < 3"
    using assms by (simp_all add: lanesValid_def numLanes_def)
  then have "nat (targetLane g) < 3" by simp
  then have cur: "d ! nat (targetLane g) = laneHit g (targetLane g)"
    using c(2) [of "nat (targetLane g)"] t by simp
  have d0: "d ! 0 = laneHit g 0" and d1: "d ! Suc 0 = laneHit g 1" and d2: "d ! 2 = laneHit g 2"
    using c(2) [of 0] c(2) [of 1] c(2) [of 2] by simp_all
  have pick: "fold (laneStep g d) [0..numLanes - 1] (- 1) = pickLane g"
    unfolding lanes_upto pickLane_def by (simp add: laneStep_char d0 d1 d2)
  show ?thesis
    using t by (simp add: autoDodge_def d c(1) cur pick)
qed

lemma autoDodge_frame:
  assumes "autoDodge g = Inr g'"
  shows "g' = g\<lparr>targetLane := targetLane g'\<rparr>"
  using assms
  by (auto simp: autoDodge_def Let_def split: sum.splits if_splits)

text \<open>
  Claim C3. Whenever \<open>autoDodge\<close> returns, it has changed no field but \<open>targetLane\<close>, and
  it has changed \<open>targetLane\<close> only if the flag of the current target lane was set and the
  flag of some lane was not. If the flag of the target lane is not set the state is
  returned as it was, and so it is if all three flags are set. The flag of lane \<open>l\<close> is
  set exactly when an active obstacle of that lane has its depth in \<open>(0, dodgeLookahead)\<close>.
\<close>

theorem autoDodge_target:
  assumes "autoDodge g = Inr g'"
  shows "\<exists>d. dangerFlags g = Inr d \<and> length d = 3
           \<and> (\<forall>l < 3. d ! l = laneHit g (int l))
           \<and> g' = g\<lparr>targetLane := targetLane g'\<rparr>
           \<and> (targetLane g' \<noteq> targetLane g \<longrightarrow>
                  d ! nat (targetLane g) \<and> (\<exists>l < 3. \<not> d ! l))
           \<and> (\<not> d ! nat (targetLane g) \<longrightarrow> g' = g)
           \<and> (d ! 0 \<and> d ! 1 \<and> d ! 2 \<longrightarrow> g' = g)"
proof -
  from assms obtain d where d: "dangerFlags g = Inr d"
    by (auto simp: autoDodge_def split: sum.splits)
  note c = dangerFlags_char [OF d]
  define r where "r = fold (laneStep g d) [0..numLanes - 1] (- 1)"
  note b = bestLane_cases [OF r_def]
  have res: "g' = (if \<not> d ! nat (targetLane g) then g
                   else if r \<ge> 0 then g\<lparr>targetLane := r\<rparr> else g)"
    using assms by (auto simp: autoDodge_def d r_def Let_def split: if_splits)
  have safe: "\<not> d ! nat (targetLane g) \<longrightarrow> g' = g"
    using res by simp
  have full: "d ! 0 \<and> d ! 1 \<and> d ! 2 \<longrightarrow> g' = g"
  proof
    assume all: "d ! 0 \<and> d ! 1 \<and> d ! 2"
    have "\<not> (0 \<le> r \<and> r < 3 \<and> \<not> d ! nat r)"
    proof
      assume a: "0 \<le> r \<and> r < 3 \<and> \<not> d ! nat r"
      then have "nat r = 0 \<or> nat r = 1 \<or> nat r = 2" by auto
      then show False using a all by auto
    qed
    then have "r = - 1" using b by blast
    then show "g' = g" using res by simp
  qed
  have chg: "targetLane g' \<noteq> targetLane g \<longrightarrow> d ! nat (targetLane g) \<and> (\<exists>l < 3. \<not> d ! l)"
  proof
    assume ne: "targetLane g' \<noteq> targetLane g"
    then have cur: "d ! nat (targetLane g)" and r0: "r \<ge> 0"
      using res by (auto split: if_splits)
    then have "0 \<le> r \<and> r < 3 \<and> \<not> d ! nat r" using b by auto
    then have "nat r < 3 \<and> \<not> d ! nat r" by auto
    then show "d ! nat (targetLane g) \<and> (\<exists>l < 3. \<not> d ! l)" using cur by blast
  qed
  show ?thesis
    using d c autoDodge_frame [OF assms] chg safe full by blast
qed

theorem autoDodge_target_witness:
  "autoDodge dodgeGame = Inr (dodgeGame\<lparr>targetLane := 0\<rparr>)
   \<and> (\<exists>d. dangerFlags dodgeGame = Inr d \<and> d ! nat (targetLane dodgeGame) \<and> (\<exists>l < 3. \<not> d ! l))"
proof -
  have v: "lanesValid dodgeGame"
    by (simp add: lanesValid_def dodgeGame_def newGame_def numLanes_def list_all_iff)
  have hit: "laneHit dodgeGame 1" "\<not> laneHit dodgeGame 0"
    by (simp_all add: laneHit_def dodgeGame_def newGame_def dodgeLookahead_def)
  have e: "autoDodge dodgeGame = Inr (dodgeGame\<lparr>targetLane := 0\<rparr>)"
    unfolding autoDodge_eval [OF v]
    using hit by (simp add: pickLane_def laneCoin_def dodgeGame_def newGame_def)
  have "targetLane (dodgeGame\<lparr>targetLane := 0\<rparr>) \<noteq> targetLane dodgeGame"
    by (simp add: dodgeGame_def newGame_def)
  then show ?thesis
    using e autoDodge_target [OF e] by blast
qed

section \<open>The fields of the state after \<open>update\<close>\<close>

lemma obstacleTimer_shape:
  "obstacleTimer dt ol g =
     (if spawnTimer g + dt \<ge> spawnInterval (speed g)
      then g\<lparr>spawnTimer := spawnTimer g + dt - spawnInterval (speed g),
              obstacles := claimSlot obstacle.active (newObstacle ol) (obstacles g)\<rparr>
      else g\<lparr>spawnTimer := spawnTimer g + dt\<rparr>)"
  by (simp add: obstacleTimer_def Let_def spawnObstacle_claim spawnInterval_def)

lemma coinTimerTick_shape:
  "coinTimerTick dt cl g =
     (if coinTimer g + dt \<ge> 6 / 10
      then g\<lparr>coinTimer := coinTimer g + dt - 6 / 10, coinPool := coinTrail cl (coinPool g)\<rparr>
      else g\<lparr>coinTimer := coinTimer g + dt\<rparr>)"
  by (simp add: coinTimerTick_def Let_def spawnCoin_trail)

lemma advanceClock_shape:
  "advanceClock dt g =
     g\<lparr>elapsed := elapsed g + dt,
       score := score g + of_int (go_int (speed g * dt * 10)),
       speed := rampSpeed (elapsed g + dt),
       scrollOff := scrollOff g + rampSpeed (elapsed g + dt) * dt\<rparr>"
  by (simp add: advanceClock_def Let_def rampSpeed_def)

lemma beforeDodge_fields:
  "width (beforeDodge dt ol cl g) = width g"
  "height (beforeDodge dt ol cl g) = height g"
  "frame (beforeDodge dt ol cl g) = frame g"
  "runnerLane (beforeDodge dt ol cl g) = runnerLane g"
  "targetLane (beforeDodge dt ol cl g) = targetLane g"
  "laneX (beforeDodge dt ol cl g) = laneX g"
  "elapsed (beforeDodge dt ol cl g) = elapsed g + dt"
  "speed (beforeDodge dt ol cl g) = rampSpeed (elapsed g + dt)"
  "scrollOff (beforeDodge dt ol cl g) = scrollOff g + rampSpeed (elapsed g + dt) * dt"
  "coins (beforeDodge dt ol cl g) =
     coins g + of_nat (collected (rampSpeed (elapsed g + dt) * dt) (runnerLane g) (coinPool g))"
  "score (beforeDodge dt ol cl g) =
     score g + of_int (go_int (speed g * dt * 10))
       + 50 * of_nat (collected (rampSpeed (elapsed g + dt) * dt) (runnerLane g) (coinPool g))"
  "spawnTimer (beforeDodge dt ol cl g) =
     (if spawnTimer g + dt \<ge> spawnInterval (rampSpeed (elapsed g + dt))
      then spawnTimer g + dt - spawnInterval (rampSpeed (elapsed g + dt))
      else spawnTimer g + dt)"
  "coinTimer (beforeDodge dt ol cl g) =
     (if coinTimer g + dt \<ge> 6 / 10 then coinTimer g + dt - 6 / 10 else coinTimer g + dt)"
  "obstacles (beforeDodge dt ol cl g) =
     (if spawnTimer g + dt \<ge> spawnInterval (rampSpeed (elapsed g + dt))
      then claimSlot obstacle.active (newObstacle ol)
             (map (movedObstacle (rampSpeed (elapsed g + dt) * dt)) (obstacles g))
      else map (movedObstacle (rampSpeed (elapsed g + dt) * dt)) (obstacles g))"
  "coinPool (beforeDodge dt ol cl g) =
     (if coinTimer g + dt \<ge> 6 / 10
      then coinTrail cl (map (movedCoin (rampSpeed (elapsed g + dt) * dt) (runnerLane g)) (coinPool g))
      else map (movedCoin (rampSpeed (elapsed g + dt) * dt) (runnerLane g)) (coinPool g))"
  by (simp_all add: beforeDodge_def coinTimerTick_shape obstacleTimer_shape moveCoins_map
        moveObstacles_map advanceClock_shape)

lemma laneTransition_fields:
  "width (laneTransition dt g) = width g"
  "height (laneTransition dt g) = height g"
  "frame (laneTransition dt g) = frame g"
  "targetLane (laneTransition dt g) = targetLane g"
  "elapsed (laneTransition dt g) = elapsed g"
  "speed (laneTransition dt g) = speed g"
  "scrollOff (laneTransition dt g) = scrollOff g"
  "coins (laneTransition dt g) = coins g"
  "score (laneTransition dt g) = score g"
  "spawnTimer (laneTransition dt g) = spawnTimer g"
  "coinTimer (laneTransition dt g) = coinTimer g"
  "obstacles (laneTransition dt g) = obstacles g"
  "coinPool (laneTransition dt g) = coinPool g"
  by (simp_all add: laneTransition_def Let_def)

lemma update_split:
  "update dt ol cl g = Inr g' \<longleftrightarrow>
     (\<exists>g6. autoDodge (beforeDodge dt ol cl g) = Inr g6 \<and> g' = laneTransition dt g6)"
  by (auto simp: update_def beforeDodge_def thenDo_eq_Inr)

lemma update_fields:
  assumes "update dt ol cl g = Inr g'"
  shows "width g' = width g"
    and "height g' = height g"
    and "frame g' = frame g"
    and "elapsed g' = elapsed g + dt"
    and "speed g' = rampSpeed (elapsed g + dt)"
    and "scrollOff g' = scrollOff g + rampSpeed (elapsed g + dt) * dt"
    and "coins g' = coins (beforeDodge dt ol cl g)"
    and "score g' = score (beforeDodge dt ol cl g)"
    and "spawnTimer g' = spawnTimer (beforeDodge dt ol cl g)"
    and "coinTimer g' = coinTimer (beforeDodge dt ol cl g)"
    and "obstacles g' = obstacles (beforeDodge dt ol cl g)"
    and "coinPool g' = coinPool (beforeDodge dt ol cl g)"
proof -
  from assms obtain g6 where a: "autoDodge (beforeDodge dt ol cl g) = Inr g6"
    and g': "g' = laneTransition dt g6"
    by (auto simp: update_split)
  have fr: "g6 = (beforeDodge dt ol cl g)\<lparr>targetLane := targetLane g6\<rparr>"
    by (rule autoDodge_frame [OF a])
  have f: "width g6 = width (beforeDodge dt ol cl g)"
      "height g6 = height (beforeDodge dt ol cl g)"
      "frame g6 = frame (beforeDodge dt ol cl g)"
      "elapsed g6 = elapsed (beforeDodge dt ol cl g)"
      "speed g6 = speed (beforeDodge dt ol cl g)"
      "scrollOff g6 = scrollOff (beforeDodge dt ol cl g)"
      "coins g6 = coins (beforeDodge dt ol cl g)"
      "score g6 = score (beforeDodge dt ol cl g)"
      "spawnTimer g6 = spawnTimer (beforeDodge dt ol cl g)"
      "coinTimer g6 = coinTimer (beforeDodge dt ol cl g)"
      "obstacles g6 = obstacles (beforeDodge dt ol cl g)"
      "coinPool g6 = coinPool (beforeDodge dt ol cl g)"
    by (subst fr, simp)+
  show "width g' = width g"
    and "height g' = height g"
    and "frame g' = frame g"
    and "elapsed g' = elapsed g + dt"
    and "speed g' = rampSpeed (elapsed g + dt)"
    and "scrollOff g' = scrollOff g + rampSpeed (elapsed g + dt) * dt"
    and "coins g' = coins (beforeDodge dt ol cl g)"
    and "score g' = score (beforeDodge dt ol cl g)"
    and "spawnTimer g' = spawnTimer (beforeDodge dt ol cl g)"
    and "coinTimer g' = coinTimer (beforeDodge dt ol cl g)"
    and "obstacles g' = obstacles (beforeDodge dt ol cl g)"
    and "coinPool g' = coinPool (beforeDodge dt ol cl g)"
    unfolding g' laneTransition_fields f by (simp_all add: beforeDodge_fields)
qed

section \<open>\<open>update\<close> returns on every state with valid lanes\<close>

lemma pickLane_range: "pickLane g = - 1 \<or> (0 \<le> pickLane g \<and> pickLane g < 3)"
  by (simp add: pickLane_def)

lemma lanesValid_beforeDodge:
  assumes "lanesValid g" and "0 \<le> ol" and "ol < numLanes"
  shows "lanesValid (beforeDodge dt ol cl g)"
proof -
  let ?ok = "\<lambda>ob. obstacle.active ob \<longrightarrow> 0 \<le> obstacle.lane ob \<and> obstacle.lane ob < numLanes"
  let ?m = "map (movedObstacle (rampSpeed (elapsed g + dt) * dt)) (obstacles g)"
  have ok: "\<forall>ob \<in> set (obstacles g). ?ok ob"
    using assms(1) by (simp add: lanesValid_def list_all_iff)
  have m: "\<forall>ob \<in> set ?m. ?ok ob"
    using ok by (auto simp: movedObstacle_def)
  have new: "?ok (newObstacle ol)"
    using assms(2,3) by (simp add: newObstacle_def)
  have "\<forall>ob \<in> set (claimSlot obstacle.active (newObstacle ol) ?m). ?ok ob"
    using m new set_claimSlot [of obstacle.active "newObstacle ol" ?m] by blast
  then have "\<forall>ob \<in> set (obstacles (beforeDodge dt ol cl g)). ?ok ob"
    using m by (simp add: beforeDodge_fields)
  then show ?thesis
    using assms(1) by (simp add: lanesValid_def list_all_iff beforeDodge_fields)
qed

lemma update_total:
  assumes "lanesValid g" and "0 \<le> ol" and "ol < numLanes"
  shows "\<exists>g'. update dt ol cl g = Inr g' \<and> lanesValid g'"
proof -
  let ?b = "beforeDodge dt ol cl g"
  have v: "lanesValid ?b" by (rule lanesValid_beforeDodge [OF assms])
  define g6 where "g6 = (if \<not> laneHit ?b (targetLane ?b) then ?b
                else if pickLane ?b \<ge> 0 then ?b\<lparr>targetLane := pickLane ?b\<rparr> else ?b)"
  have a: "autoDodge ?b = Inr g6"
    unfolding g6_def by (rule autoDodge_eval [OF v])
  have "lanesValid g6"
    using v pickLane_range [of ?b] by (auto simp: g6_def lanesValid_def numLanes_def)
  then have "lanesValid (laneTransition dt g6)"
    by (simp add: lanesValid_def laneTransition_fields)
  moreover have "update dt ol cl g = Inr (laneTransition dt g6)"
    using a by (auto simp: update_split)
  ultimately show ?thesis by blast
qed

lemma lanesValid_newGame: "lanesValid (newGame w h)"
  by (simp add: lanesValid_def newGame_def numLanes_def list_all_iff)

section \<open>The speed ramp\<close>

lemma rampSpeed_mono: "a \<le> b \<Longrightarrow> rampSpeed a \<le> rampSpeed b"
  by (simp add: rampSpeed_def)

lemma rampSpeed_bounds: "0 \<le> e \<Longrightarrow> 6 \<le> rampSpeed e \<and> rampSpeed e \<le> 16"
  by (simp add: rampSpeed_def)

lemma rampSpeed_top: "a \<le> b \<Longrightarrow> rampSpeed a = 16 \<Longrightarrow> rampSpeed b = 16"
  by (simp add: rampSpeed_def split: if_splits)

lemma run_snoc:
  "run (ticks @ [(dt, ol, cl)]) g = thenDo (run ticks g) (update dt ol cl)"
proof (induction ticks arbitrary: g)
  case Nil
  show ?case by (cases "update dt ol cl g") simp_all
next
  case (Cons t ticks)
  obtain dt' ol' cl' where t: "t = (dt', ol', cl')" by (cases t) auto
  show ?case
    by (cases "update dt' ol' cl' g") (simp_all add: t Cons.IH)
qed

lemma run_ramp:
  assumes "list_all (\<lambda>(dt, ol, cl). 0 \<le> dt \<and> drawsInRange ol cl) ticks"
  shows "\<exists>g. run ticks (newGame w h) = Inr g \<and> lanesValid g \<and> 0 \<le> elapsed g
             \<and> speed g = rampSpeed (elapsed g)"
  using assms
proof (induction ticks rule: rev_induct)
  case Nil
  show ?case
    using lanesValid_newGame [of w h] by (simp add: newGame_def rampSpeed_def)
next
  case (snoc t ticks)
  obtain dt ol cl where t: "t = (dt, ol, cl)" by (cases t) auto
  from snoc.prems have tk: "0 \<le> dt" "0 \<le> ol" "ol < numLanes"
    and rest: "list_all (\<lambda>(dt, ol, cl). 0 \<le> dt \<and> drawsInRange ol cl) ticks"
    by (simp_all add: t drawsInRange_def)
  from snoc.IH [OF rest] obtain g where g: "run ticks (newGame w h) = Inr g"
    and v: "lanesValid g" and e: "0 \<le> elapsed g"
    by blast
  from update_total [OF v tk(2,3)] obtain g' where u: "update dt ol cl g = Inr g'"
    and v': "lanesValid g'"
    by blast
  have "run (ticks @ [t]) (newGame w h) = Inr g'"
    by (simp add: t run_snoc g u)
  moreover have "0 \<le> elapsed g'" "speed g' = rampSpeed (elapsed g')"
    using update_fields(4,5) [OF u] e tk(1) by simp_all
  ultimately show ?case using v' by blast
qed

text \<open>
  Claim C4. Take any run of ticks from the initial state, each \<open>dt\<close> in \<open>(0, 0.1]\<close> and
  each drawn lane in range, and one more such tick. The run returns a state \<open>g\<close>, the
  next \<open>update\<close> returns a state \<open>g'\<close>, the speed does not decrease from \<open>g\<close> to \<open>g'\<close>, it
  stays 16 once it is 16, and it lies in \<open>[6, 16]\<close> before and after the call.
\<close>

theorem speed_ramp:
  assumes "list_all (\<lambda>(dt, ol, cl). 0 < dt \<and> dt \<le> 1 / 10 \<and> drawsInRange ol cl) ticks"
    and "0 < dt" and "dt \<le> 1 / 10" and "drawsInRange ol cl"
  shows "\<exists>g g'. run ticks (newGame w h) = Inr g \<and> update dt ol cl g = Inr g'
           \<and> speed g \<le> speed g' \<and> (speed g = 16 \<longrightarrow> speed g' = 16)
           \<and> 6 \<le> speed g \<and> speed g \<le> 16 \<and> 6 \<le> speed g' \<and> speed g' \<le> 16"
proof -
  have "list_all (\<lambda>(dt, ol, cl). 0 \<le> dt \<and> drawsInRange ol cl) ticks"
    using assms(1) by (auto simp: list_all_iff)
  from run_ramp [OF this] obtain g where g: "run ticks (newGame w h) = Inr g"
    and v: "lanesValid g" and e: "0 \<le> elapsed g" and s: "speed g = rampSpeed (elapsed g)"
    by blast
  from assms(4) have "0 \<le> ol" "ol < numLanes" by (simp_all add: drawsInRange_def)
  from update_total [OF v this] obtain g' where u: "update dt ol cl g = Inr g'"
    by blast
  have s': "speed g' = rampSpeed (elapsed g + dt)"
    by (rule update_fields(5) [OF u])
  have le: "elapsed g \<le> elapsed g + dt" "0 \<le> elapsed g + dt"
    using assms(2) e by simp_all
  have "speed g \<le> speed g'"
    unfolding s s' by (rule rampSpeed_mono [OF le(1)])
  moreover have "speed g = 16 \<longrightarrow> speed g' = 16"
    unfolding s s' using rampSpeed_top [OF le(1)] by blast
  moreover have "6 \<le> speed g \<and> speed g \<le> 16" "6 \<le> speed g' \<and> speed g' \<le> 16"
    unfolding s s' using rampSpeed_bounds e le(2) by blast+
  ultimately show ?thesis using g u by blast
qed

theorem speed_ramp_witness:
  "\<exists>g g'. run [(1 / 10, 0, 1), (1 / 20, 2, 2)] (newGame 80 24) = Inr g
      \<and> update (1 / 10) 1 0 g = Inr g'
      \<and> speed g \<le> speed g' \<and> 6 \<le> speed g' \<and> speed g' \<le> 16"
proof -
  have "list_all (\<lambda>(dt, ol, cl). 0 < dt \<and> dt \<le> 1 / 10 \<and> drawsInRange ol cl)
          [(1 / 10 :: real, 0, 1), (1 / 20, 2, 2)]"
    by (simp add: drawsInRange_def numLanes_def)
  moreover have "drawsInRange 1 0"
    by (simp add: drawsInRange_def numLanes_def)
  ultimately show ?thesis
    using speed_ramp [of "[(1 / 10, 0, 1), (1 / 20, 2, 2)]" "1 / 10" 1 0 80 24] by auto
qed

section \<open>Obstacles and the rest of the state\<close>

lemma update_eval:
  assumes "lanesValid g" and "0 \<le> ol" and "ol < numLanes"
  shows "update dt ol cl g = Inr (laneTransition dt (dodged (beforeDodge dt ol cl g)))"
proof -
  have "autoDodge (beforeDodge dt ol cl g) = Inr (dodged (beforeDodge dt ol cl g))"
    unfolding dodged_def by (rule autoDodge_eval [OF lanesValid_beforeDodge [OF assms]])
  then show ?thesis by (auto simp: update_split)
qed

lemma beforeDodge_obstacles_irrelevant:
  "coins (beforeDodge dt ol2 cl (g\<lparr>obstacles := obs\<rparr>)) = coins (beforeDodge dt ol1 cl g)"
  "score (beforeDodge dt ol2 cl (g\<lparr>obstacles := obs\<rparr>)) = score (beforeDodge dt ol1 cl g)"
  "spawnTimer (beforeDodge dt ol2 cl (g\<lparr>obstacles := obs\<rparr>)) = spawnTimer (beforeDodge dt ol1 cl g)"
  "coinTimer (beforeDodge dt ol2 cl (g\<lparr>obstacles := obs\<rparr>)) = coinTimer (beforeDodge dt ol1 cl g)"
  "coinPool (beforeDodge dt ol2 cl (g\<lparr>obstacles := obs\<rparr>)) = coinPool (beforeDodge dt ol1 cl g)"
  by (simp_all add: beforeDodge_fields)

text \<open>
  Claim C10, as amended. Let two states differ in the obstacle pool only, and let
  \<open>update\<close> return on both, with the same \<open>dt\<close> and the same lane drawn for the coin trail.
  Then the two results agree on \<open>score\<close>, \<open>coins\<close>, \<open>speed\<close>, \<open>elapsed\<close>, \<open>scrollOff\<close> and the
  coin pool, and also on both spawn timers, the viewport and the frame buffer: they can
  differ in the obstacle pool, \<open>targetLane\<close>, \<open>laneX\<close> and \<open>runnerLane\<close> only.
\<close>

theorem obstacles_no_collision:
  assumes "g2 = g1\<lparr>obstacles := obs\<rparr>"
    and "update dt ol1 cl g1 = Inr g1'"
    and "update dt ol2 cl g2 = Inr g2'"
  shows "score g2' = score g1' \<and> coins g2' = coins g1' \<and> speed g2' = speed g1'
         \<and> elapsed g2' = elapsed g1' \<and> scrollOff g2' = scrollOff g1'
         \<and> coinPool g2' = coinPool g1'
         \<and> g2' = g1'\<lparr>obstacles := obstacles g2', targetLane := targetLane g2',
                     laneX := laneX g2', runnerLane := runnerLane g2'\<rparr>"
proof -
  note a = update_fields [OF assms(2)] and b = update_fields [OF assms(3)]
  have f: "score g2' = score g1'" "coins g2' = coins g1'" "speed g2' = speed g1'"
    "elapsed g2' = elapsed g1'" "scrollOff g2' = scrollOff g1'" "coinPool g2' = coinPool g1'"
    "spawnTimer g2' = spawnTimer g1'" "coinTimer g2' = coinTimer g1'"
    "width g2' = width g1'" "height g2' = height g1'" "frame g2' = frame g1'"
    unfolding a b assms(1) by (simp_all add: beforeDodge_obstacles_irrelevant)
  have "g2' = g1'\<lparr>obstacles := obstacles g2', targetLane := targetLane g2',
                     laneX := laneX g2', runnerLane := runnerLane g2'\<rparr>"
    using f by (cases g1', cases g2') simp
  then show ?thesis using f by blast
qed

theorem obstacles_no_collision_witness:
  "\<exists>gA gB. update (1 / 20) 0 0 snapA = Inr gA \<and> update (1 / 20) 2 0 snapB = Inr gB
     \<and> score gB = score gA \<and> coins gB = coins gA \<and> speed gB = speed gA
     \<and> elapsed gB = elapsed gA \<and> scrollOff gB = scrollOff gA \<and> coinPool gB = coinPool gA"
proof -
  have vA: "lanesValid snapA"
    by (simp add: lanesValid_def snapA_def newGame_def numLanes_def list_all_iff)
  have vB: "lanesValid snapB"
    by (simp add: lanesValid_def snapB_def snapA_def newGame_def numLanes_def list_all_iff)
  obtain gA where A: "update (1 / 20) 0 0 snapA = Inr gA"
    using update_total [OF vA, of 0] by (auto simp: numLanes_def)
  obtain gB where B: "update (1 / 20) 2 0 snapB = Inr gB"
    using update_total [OF vB, of 2] by (auto simp: numLanes_def)
  have "snapB = snapA\<lparr>obstacles := obstacles snapB\<rparr>"
    by (simp add: snapB_def)
  from obstacles_no_collision [OF this A B] show ?thesis
    using A B by blast
qed

text \<open>
  The claim as stated lets obstacles influence \<open>targetLane\<close>, \<open>laneX\<close> and the obstacle
  pool only. \<open>runnerLane\<close> is influenced too: without the obstacle the runner snaps into
  lane 0, with it the target moves back to lane 1 and \<open>runnerLane\<close> stays 1.
\<close>

theorem obstacles_move_runnerLane:
  "snapB = snapA\<lparr>obstacles := obstacles snapB\<rparr>
   \<and> map_sum (\<lambda>e. e) runnerLane (update (1 / 20) 0 0 snapA) = Inr 0
   \<and> map_sum (\<lambda>e. e) runnerLane (update (1 / 20) 0 0 snapB) = Inr 1"
proof -
  have vA: "lanesValid snapA"
    by (simp add: lanesValid_def snapA_def newGame_def numLanes_def list_all_iff)
  have vB: "lanesValid snapB"
    by (simp add: lanesValid_def snapB_def snapA_def newGame_def numLanes_def list_all_iff)
  have rs: "rampSpeed (1 / 20) = 6 + 1 / 400"
    by (simp add: rampSpeed_def)
  have iv: "spawnInterval (6 + 1 / 400) > 1 / 20"
    by (simp add: spawnInterval_def)
  have obsA: "obstacles (beforeDodge (1 / 20) 0 0 snapA) =
      replicate 20 \<lparr>obstacle.lane = 0, obstacle.z = 0, obstacle.active = False\<rparr>"
    using iv by (simp add: beforeDodge_fields snapA_def newGame_def rs movedObstacle_def)
  have hA: "\<not> laneHit (beforeDodge (1 / 20) 0 0 snapA) 0"
    by (simp add: laneHit_def obsA)
  have A: "runnerLane (laneTransition (1 / 20) (dodged (beforeDodge (1 / 20) 0 0 snapA))) = 0"
    using hA
    by (simp add: dodged_def laneTransition_def Let_def beforeDodge_fields snapA_def newGame_def)
  have obsB: "obstacles (beforeDodge (1 / 20) 0 0 snapB) =
      \<lparr>obstacle.lane = 0, obstacle.z = 5 - (6 + 1 / 400) * (1 / 20), obstacle.active = True\<rparr>
            # replicate 19 \<lparr>obstacle.lane = 0, obstacle.z = 0, obstacle.active = False\<rparr>"
    using iv by (simp add: beforeDodge_fields snapB_def snapA_def newGame_def rs movedObstacle_def)
  have hB: "laneHit (beforeDodge (1 / 20) 0 0 snapB) 0"
     "\<not> laneHit (beforeDodge (1 / 20) 0 0 snapB) 1"
     "\<not> laneHit (beforeDodge (1 / 20) 0 0 snapB) 2"
    by (simp_all add: laneHit_def obsB dodgeLookahead_def)
  have cB: "\<not> laneCoin (beforeDodge (1 / 20) 0 0 snapB) 2"
    by (simp add: laneCoin_def beforeDodge_fields snapB_def snapA_def newGame_def movedCoin_def)
  have pB: "pickLane (beforeDodge (1 / 20) 0 0 snapB) = 1"
    using hB cB by (simp add: pickLane_def)
  have B: "runnerLane (laneTransition (1 / 20) (dodged (beforeDodge (1 / 20) 0 0 snapB))) = 1"
    using hB pB
    by (simp add: dodged_def laneTransition_def Let_def beforeDodge_fields snapB_def snapA_def newGame_def)
  show ?thesis
    using A B update_eval [OF vA, of 0 "1 / 20" 0] update_eval [OF vB, of 0 "1 / 20" 0]
    by (simp add: numLanes_def snapB_def)
qed

section \<open>Coin collection\<close>

lemma collected_only:
  assumes "i < length cs" and "collectable d rl (cs ! i)"
    and "\<forall>j < length cs. j \<noteq> i \<longrightarrow> \<not> collectable d rl (cs ! j)"
  shows "collected d rl cs = 1"
proof -
  have split: "cs = take i cs @ cs ! i # drop (Suc i) cs"
    using assms(1) by (simp add: id_take_nth_drop [symmetric])
  have "\<forall>c \<in> set (take i cs). \<not> collectable d rl c"
    using assms(1,3) by (auto simp: in_set_conv_nth)
  then have a: "filter (collectable d rl) (take i cs) = []"
    by (simp add: filter_empty_conv)
  have "\<forall>c \<in> set (drop (Suc i) cs). \<not> collectable d rl c"
  proof
    fix c assume "c \<in> set (drop (Suc i) cs)"
    then obtain k where k: "k < length cs - Suc i" "c = cs ! (Suc i + k)"
      by (auto simp: in_set_conv_nth)
    then show "\<not> collectable d rl c"
      using assms(3) by simp
  qed
  then have b: "filter (collectable d rl) (drop (Suc i) cs) = []"
    by (simp add: filter_empty_conv)
  have "collected d rl cs = length (filter (collectable d rl) (take i cs @ cs ! i # drop (Suc i) cs))"
    unfolding collected_def using split by simp
  then show ?thesis
    using a b assms(2) by simp
qed

lemma collected_pos:
  assumes "i < length cs" and "collectable d rl (cs ! i)"
  shows "1 \<le> collected d rl cs"
proof -
  have "cs ! i \<in> set (filter (collectable d rl) cs)"
    using assms by simp
  then have "filter (collectable d rl) cs \<noteq> []"
    by (metis empty_iff list.set(1))
  then show ?thesis
    unfolding collected_def by (cases "filter (collectable d rl) cs") simp_all
qed

lemma coinTrail_nth:
  assumes "i < length cs"
  shows "coinTrail cl cs ! i = cs ! i
         \<or> (\<not> coinObj.active (cs ! i)
             \<and> (coinTrail cl cs ! i = newCoin cl 0 \<or> coinTrail cl cs ! i = newCoin cl 1
                 \<or> coinTrail cl cs ! i = newCoin cl 2))"
proof -
  let ?a = "claimSlot coinObj.active (newCoin cl 0) cs"
  let ?b = "claimSlot coinObj.active (newCoin cl 1) ?a"
  have n: "coinObj.active (newCoin cl 0)" "coinObj.active (newCoin cl 1)"
    by (simp_all add: newCoin_def)
  have 1: "?a ! i = cs ! i \<or> (?a ! i = newCoin cl 0 \<and> \<not> coinObj.active (cs ! i))"
    using claimSlot_nth [OF assms] by blast
  have 2: "?b ! i = ?a ! i \<or> (?b ! i = newCoin cl 1 \<and> \<not> coinObj.active (?a ! i))"
    using claimSlot_nth [of i ?a] assms by simp
  have 3: "coinTrail cl cs ! i = ?b ! i
           \<or> (coinTrail cl cs ! i = newCoin cl 2 \<and> \<not> coinObj.active (?b ! i))"
    unfolding coinTrail_def using claimSlot_nth [of i ?b] assms by simp
  show ?thesis
    using 1 2 3 n by metis
qed

lemma coinStep_inactive:
  "\<not> coinObj.active (coinPool g ! i) \<Longrightarrow> coinStep dt i g = g"
  by (simp add: coinStep_def)

text \<open>
  Claim C1, as amended. Let \<open>update\<close> return \<open>g'\<close> for a \<open>dt\<close> in \<open>(0, 0.1]\<close>, and let slot \<open>i\<close> hold an
  active coin in the runner's lane whose depth after this tick's movement (the new speed
  times \<open>dt\<close>) lies in \<open>(0, 2)\<close>. Then the coin loop leaves slot \<open>i\<close> inactive; \<open>coins\<close> has
  grown by the number of coins that pass this test, one for each, and \<open>score\<close> by the
  distance score plus 50 for each; when coin \<open>i\<close> is the only such coin that is exactly
  1 and exactly 50. A slot is active after the loop exactly when it was active, not
  collected and not beyond \<open>-1\<close>, so no other coin is deactivated by the collection; the
  loop body returns the state unchanged on an inactive slot, and an inactive coin never
  passes the test. After the whole \<open>update\<close> slot \<open>i\<close> is inactive or holds a coin spawned
  in this tick.
\<close>

theorem coin_collected_once:
  assumes "0 < dt" and "dt \<le> 1 / 10"
    and "update dt ol cl g = Inr g'"
    and "i < length (coinPool g)"
    and "coinObj.active (coinPool g ! i)"
    and "0 < coinObj.z (coinPool g ! i) - speed g' * dt"
    and "coinObj.z (coinPool g ! i) - speed g' * dt < 2"
    and "coinObj.lane (coinPool g ! i) = runnerLane g"
  shows "let d = speed g' * dt;
             n = collected d (runnerLane g) (coinPool g);
             after = coinPool (moveCoins dt (moveObstacles dt (advanceClock dt g)))
         in 1 \<le> n
            \<and> coins g' = coins g + of_nat n
            \<and> score g' = score g + of_int (go_int (speed g * dt * 10)) + 50 * of_nat n
            \<and> ((\<forall>j < length (coinPool g). j \<noteq> i \<longrightarrow> \<not> collectable d (runnerLane g) (coinPool g ! j))
                 \<longrightarrow> n = 1)
            \<and> \<not> coinObj.active (after ! i)
            \<and> (\<forall>j < length (coinPool g).
                  coinObj.active (after ! j) =
                    (coinObj.active (coinPool g ! j)
                     \<and> \<not> collectable d (runnerLane g) (coinPool g ! j)
                     \<and> - 1 \<le> coinObj.z (coinPool g ! j) - d))
            \<and> (\<forall>j < length (coinPool g). \<not> coinObj.active (coinPool g ! j) \<longrightarrow>
                  \<not> collectable d (runnerLane g) (coinPool g ! j)
                  \<and> after ! j = coinPool g ! j \<and> coinStep dt j g = g)
            \<and> (coinObj.active (coinPool g' ! i) \<longrightarrow>
                  coinPool g' ! i = newCoin cl 0 \<or> coinPool g' ! i = newCoin cl 1
                  \<or> coinPool g' ! i = newCoin cl 2)"
proof -
  note f = update_fields [OF assms(3)]
  define d where "d = speed g' * dt"
  have d: "d = rampSpeed (elapsed g + dt) * dt"
    by (simp add: d_def f(5))
  define n where "n = collected d (runnerLane g) (coinPool g)"
  define after where "after = coinPool (moveCoins dt (moveObstacles dt (advanceClock dt g)))"
  have after: "after = map (movedCoin d (runnerLane g)) (coinPool g)"
    by (simp add: after_def moveCoins_map moveObstacles_map advanceClock_shape d)
  have c: "collectable d (runnerLane g) (coinPool g ! i)"
    using assms(5-8) by (simp add: collectable_def d_def)
  have 1: "1 \<le> n"
    unfolding n_def by (rule collected_pos [OF assms(4) c])
  have 2: "coins g' = coins g + of_nat n"
    by (simp add: f(7) beforeDodge_fields n_def d)
  have 3: "score g' = score g + of_int (go_int (speed g * dt * 10)) + 50 * of_nat n"
    by (simp add: f(8) beforeDodge_fields n_def d)
  have 4: "(\<forall>j < length (coinPool g). j \<noteq> i \<longrightarrow> \<not> collectable d (runnerLane g) (coinPool g ! j))
             \<longrightarrow> n = 1"
    unfolding n_def using collected_only [OF assms(4) c] by blast
  have 5: "\<not> coinObj.active (after ! i)"
    using assms(4) c by (simp add: after movedCoin_def collectable_def)
  have 6: "\<forall>j < length (coinPool g).
             coinObj.active (after ! j) =
               (coinObj.active (coinPool g ! j)
                \<and> \<not> collectable d (runnerLane g) (coinPool g ! j)
                \<and> - 1 \<le> coinObj.z (coinPool g ! j) - d)"
    by (auto simp: after movedCoin_def)
  have 7: "\<forall>j < length (coinPool g). \<not> coinObj.active (coinPool g ! j) \<longrightarrow>
             \<not> collectable d (runnerLane g) (coinPool g ! j)
             \<and> after ! j = coinPool g ! j \<and> coinStep dt j g = g"
    by (simp add: after movedCoin_def collectable_def coinStep_inactive)
  have pool: "coinPool g' = (if coinTimer g + dt \<ge> 6 / 10 then coinTrail cl after else after)"
    by (simp add: f(12) beforeDodge_fields after d)
  have len: "i < length after"
    using assms(4) by (simp add: after)
  have 8: "coinObj.active (coinPool g' ! i) \<longrightarrow>
             coinPool g' ! i = newCoin cl 0 \<or> coinPool g' ! i = newCoin cl 1
             \<or> coinPool g' ! i = newCoin cl 2"
    using coinTrail_nth [OF len, of cl] 5 by (auto simp: pool)
  show ?thesis
    using 1 2 3 4 5 6 7 8
    unfolding Let_def d_def [symmetric] n_def [symmetric] after_def [symmetric]
    by blast
qed

theorem coin_collected_once_witness:
  "\<exists>g'. update (1 / 20) 0 0 coinGame = Inr g'
      \<and> coins g' = coins coinGame + 1
      \<and> score g' = score coinGame + 3 + 50
      \<and> \<not> coinObj.active (coinPool (moveCoins (1 / 20) (moveObstacles (1 / 20) (advanceClock (1 / 20) coinGame))) ! 0)
      \<and> \<not> coinObj.active (coinPool g' ! 0)"
proof -
  have v: "lanesValid coinGame"
    by (simp add: lanesValid_def coinGame_def newGame_def numLanes_def list_all_iff)
  obtain g' where u: "update (1 / 20) 0 0 coinGame = Inr g'"
    using update_total [OF v, of 0] by (auto simp: numLanes_def)
  have s: "speed g' = 6 + 1 / 400"
    using update_fields(5) [OF u] by (simp add: coinGame_def newGame_def rampSpeed_def)
  have only: "\<forall>j < length (coinPool coinGame). j \<noteq> 0 \<longrightarrow>
      \<not> collectable (speed g' * (1 / 20)) (runnerLane coinGame) (coinPool coinGame ! j)"
    by (simp add: coinGame_def newGame_def collectable_def nth_Cons')
  have t: "coinTimer coinGame + 1 / 20 < 6 / 10"
    by (simp add: coinGame_def newGame_def)
  have off: "coinPool g' =
      coinPool (moveCoins (1 / 20) (moveObstacles (1 / 20) (advanceClock (1 / 20) coinGame)))"
    using t update_fields(12) [OF u]
    by (simp add: beforeDodge_fields moveCoins_map moveObstacles_map advanceClock_shape)
  have gi: "go_int (speed coinGame * (1 / 20) * 10) = 3"
    by (simp add: coinGame_def newGame_def go_int_def)
  have "0 < (1 / 20 :: real)" "(1 / 20 :: real) \<le> 1 / 10"
    by simp_all
  from coin_collected_once [OF this u, of 0] only show ?thesis
    using u s gi off
    by (simp add: Let_def coinGame_def newGame_def)
qed

text \<open>
  The claim as stated has \<open>coins\<close> grow by exactly 1 and \<open>score\<close> by the bonus 50 when a
  coin is collected. In \<open>twoCoinGame\<close> the coin of slot 0 is active, in the runner's lane,
  and at depth \<open>1 - 6.0025 * 0.05\<close> after the movement of the tick; the coin of slot 1 is
  collected in the same tick, and one \<open>update\<close> takes \<open>coins\<close> from 0 to 2 and \<open>score\<close> from
  0 to 103, the distance score 3 and the bonus twice.
\<close>

theorem two_coins_one_tick:
  "coinObj.active (coinPool twoCoinGame ! 0)
   \<and> coinObj.lane (coinPool twoCoinGame ! 0) = runnerLane twoCoinGame
   \<and> coins twoCoinGame = 0 \<and> score twoCoinGame = 0
   \<and> map_sum (\<lambda>e. e) (\<lambda>g. (speed g, coins g, score g)) (update (1 / 20) 0 0 twoCoinGame)
       = Inr (2401 / 400, 2, 103)
   \<and> 0 < coinObj.z (coinPool twoCoinGame ! 0) - 2401 / 400 * (1 / 20)
   \<and> coinObj.z (coinPool twoCoinGame ! 0) - 2401 / 400 * (1 / 20) < 2"
proof -
  have v: "lanesValid twoCoinGame"
    by (simp add: lanesValid_def twoCoinGame_def newGame_def numLanes_def list_all_iff)
  have e: "coins twoCoinGame = 0" "score twoCoinGame = 0"
    "runnerLane twoCoinGame = 0" "speed twoCoinGame = 6"
    by (simp_all add: twoCoinGame_def newGame_def)
  have rs: "rampSpeed (elapsed twoCoinGame + 1 / 20) = 2401 / 400"
    by (simp add: twoCoinGame_def newGame_def rampSpeed_def)
  have mv: "(2401 / 400 :: real) * (1 / 20) = 2401 / 8000"
    by simp
  have n: "collected (2401 / 8000) 0 (coinPool twoCoinGame) = 2"
    by (simp add: collected_def collectable_def twoCoinGame_def newGame_def)
  have gi: "go_int (6 * (1 / 20) * 10) = 3"
    by (simp add: go_int_def)
  have b: "speed (beforeDodge (1 / 20) 0 0 twoCoinGame) = 2401 / 400"
    "coins (beforeDodge (1 / 20) 0 0 twoCoinGame) = 2"
    "score (beforeDodge (1 / 20) 0 0 twoCoinGame) = 103"
    by (simp_all only: beforeDodge_fields rs mv e n gi) simp_all
  have d: "speed (dodged t) = speed t" "coins (dodged t) = coins t" "score (dodged t) = score t"
    for t
    by (simp_all add: dodged_def)
  have "speed (laneTransition (1 / 20) (dodged (beforeDodge (1 / 20) 0 0 twoCoinGame))) = 2401 / 400"
    "coins (laneTransition (1 / 20) (dodged (beforeDodge (1 / 20) 0 0 twoCoinGame))) = 2"
    "score (laneTransition (1 / 20) (dodged (beforeDodge (1 / 20) 0 0 twoCoinGame))) = 103"
    by (simp_all only: laneTransition_fields d b)
  then show ?thesis
    using update_eval [OF v, of 0 "1 / 20" 0]
    by (simp add: numLanes_def twoCoinGame_def newGame_def)
qed

section \<open>Depth bounds\<close>

lemma claimSlot_replicate:
  "0 < n \<Longrightarrow> \<not> act x \<Longrightarrow> claimSlot act v (replicate n x) = v # replicate (n - 1) x"
  by (cases n) simp_all

lemma list_all_claimSlot:
  "list_all P xs \<Longrightarrow> P v \<Longrightarrow> list_all P (claimSlot act v xs)"
  using set_claimSlot [of act v xs] by (auto simp: list_all_iff)

lemma depthsBounded_beforeDodge:
  assumes "depthsBounded g" and "0 \<le> dt" and "0 \<le> elapsed g"
  shows "depthsBounded (beforeDodge dt ol cl g)"
proof -
  let ?d = "rampSpeed (elapsed g + dt) * dt"
  let ?P = "\<lambda>ob. obstacle.active ob \<longrightarrow>
                  - 1 \<le> obstacle.z ob \<and> obstacle.z ob \<le> real_of_int spawnZ"
  let ?Q = "\<lambda>c. coinObj.active c \<longrightarrow>
                  - 1 \<le> coinObj.z c \<and> coinObj.z c \<le> real_of_int spawnZ + 3"
  have "0 \<le> rampSpeed (elapsed g + dt)"
    using rampSpeed_bounds [of "elapsed g + dt"] assms(2,3) by simp
  then have d: "0 \<le> ?d"
    using assms(2) by simp
  have mo: "list_all ?P (map (movedObstacle ?d) (obstacles g))"
    using assms(1) d by (auto simp: depthsBounded_def list_all_iff movedObstacle_def)
  have mc: "list_all ?Q (map (movedCoin ?d (runnerLane g)) (coinPool g))"
    using assms(1) d by (auto simp: depthsBounded_def list_all_iff movedCoin_def)
  have no: "?P (newObstacle ol)"
    by (simp add: newObstacle_def spawnZ_def farZ_def)
  have nc: "?Q (newCoin cl 0)" "?Q (newCoin cl 1)" "?Q (newCoin cl 2)"
    by (simp_all add: newCoin_def spawnZ_def farZ_def)
  have "list_all ?P (obstacles (beforeDodge dt ol cl g))"
    using mo list_all_claimSlot [OF mo, of "newObstacle ol"] no
    by (simp add: beforeDodge_fields)
  moreover have "list_all ?Q (coinPool (beforeDodge dt ol cl g))"
    using mc nc
    by (simp add: beforeDodge_fields coinTrail_def list_all_claimSlot)
  ultimately show ?thesis
    by (simp add: depthsBounded_def)
qed

lemma depthsBounded_update:
  assumes "update dt ol cl g = Inr g'" and "depthsBounded g" and "0 \<le> dt" and "0 \<le> elapsed g"
  shows "depthsBounded g'"
  using depthsBounded_beforeDodge [OF assms(2-4), of ol cl] update_fields(11,12) [OF assms(1)]
  by (simp add: depthsBounded_def)

lemma run_depths:
  assumes "list_all (\<lambda>(dt, ol, cl). 0 \<le> dt \<and> drawsInRange ol cl) ticks"
  shows "\<exists>g. run ticks (newGame w h) = Inr g \<and> lanesValid g \<and> 0 \<le> elapsed g \<and> depthsBounded g"
  using assms
proof (induction ticks rule: rev_induct)
  case Nil
  show ?case
    using lanesValid_newGame [of w h]
    by (simp add: newGame_def depthsBounded_def list_all_iff)
next
  case (snoc t ticks)
  obtain dt ol cl where t: "t = (dt, ol, cl)" by (cases t) auto
  from snoc.prems have tk: "0 \<le> dt" "0 \<le> ol" "ol < numLanes"
    and rest: "list_all (\<lambda>(dt, ol, cl). 0 \<le> dt \<and> drawsInRange ol cl) ticks"
    by (simp_all add: t drawsInRange_def)
  from snoc.IH [OF rest] obtain g where g: "run ticks (newGame w h) = Inr g"
    and v: "lanesValid g" and e: "0 \<le> elapsed g" and b: "depthsBounded g"
    by blast
  from update_total [OF v tk(2,3)] obtain g' where u: "update dt ol cl g = Inr g'"
    and v': "lanesValid g'"
    by blast
  have "run (ticks @ [t]) (newGame w h) = Inr g'"
    by (simp add: t run_snoc g u)
  moreover have "0 \<le> elapsed g'"
    using update_fields(4) [OF u] e tk(1) by simp
  moreover have "depthsBounded g'"
    by (rule depthsBounded_update [OF u b tk(1) e])
  ultimately show ?case using v' by blast
qed

text \<open>
  Claim C2, as amended. Take any run of ticks from the initial state, each \<open>dt\<close>
  non-negative and each drawn lane in range, and one more such tick. The run returns a
  state, the next \<open>update\<close> returns a state \<open>g'\<close>, and in \<open>g'\<close> every active obstacle has its
  depth in \<open>[-1, spawnZ]\<close> and every active coin has its depth in \<open>[-1, spawnZ + 3]\<close>.
\<close>

theorem active_depth_bounds:
  assumes "list_all (\<lambda>(dt, ol, cl). 0 \<le> dt \<and> drawsInRange ol cl) ticks"
    and "0 \<le> dt" and "drawsInRange ol cl"
  shows "\<exists>g g'. run ticks (newGame w h) = Inr g \<and> update dt ol cl g = Inr g'
           \<and> (\<forall>ob \<in> set (obstacles g'). obstacle.active ob \<longrightarrow>
                 - 1 \<le> obstacle.z ob \<and> obstacle.z ob \<le> real_of_int spawnZ)
           \<and> (\<forall>c \<in> set (coinPool g'). coinObj.active c \<longrightarrow>
                 - 1 \<le> coinObj.z c \<and> coinObj.z c \<le> real_of_int spawnZ + 3)"
proof -
  from run_depths [OF assms(1)] obtain g where g: "run ticks (newGame w h) = Inr g"
    and v: "lanesValid g" and e: "0 \<le> elapsed g" and b: "depthsBounded g"
    by blast
  from assms(3) have "0 \<le> ol" "ol < numLanes" by (simp_all add: drawsInRange_def)
  from update_total [OF v this] obtain g' where u: "update dt ol cl g = Inr g'"
    by blast
  have "depthsBounded g'"
    by (rule depthsBounded_update [OF u b assms(2) e])
  then show ?thesis
    using g u unfolding depthsBounded_def list_all_iff by blast
qed

theorem active_depth_bounds_witness:
  "\<exists>g g'. run [(1 / 10, 0, 1), (6 / 10, 2, 2)] (newGame 80 24) = Inr g
      \<and> update (1 / 10) 1 0 g = Inr g'
      \<and> list_all (\<lambda>ob. \<not> obstacle.active ob \<or> (- 1 \<le> obstacle.z ob \<and> obstacle.z ob \<le> 19))
           (obstacles g')
      \<and> list_all (\<lambda>c. \<not> coinObj.active c \<or> (- 1 \<le> coinObj.z c \<and> coinObj.z c \<le> 22))
           (coinPool g')"
proof -
  have "list_all (\<lambda>(dt, ol, cl). 0 \<le> dt \<and> drawsInRange ol cl)
          [(1 / 10 :: real, 0, 1), (6 / 10, 2, 2)]"
    by (simp add: drawsInRange_def numLanes_def)
  moreover have "drawsInRange 1 0"
    by (simp add: drawsInRange_def numLanes_def)
  ultimately show ?thesis
    using active_depth_bounds [of "[(1 / 10, 0, 1), (6 / 10, 2, 2)]" "1 / 10" 1 0 80 24]
    by (simp add: list_all_iff spawnZ_def farZ_def)
qed

text \<open>
  The claim as stated bounds every active depth by \<open>spawnZ\<close>. One \<open>update\<close> of the initial
  state with \<open>dt = 0.6 = 3 / 5\<close> fires the coin timer, and the third coin of the trail is active
  at depth \<open>spawnZ + 3 = 22\<close>.
\<close>

theorem coin_trail_above_spawnZ:
  "map_sum (\<lambda>e. e) (\<lambda>g. (coinObj.active (coinPool g ! 2), coinObj.z (coinPool g ! 2)))
      (update (3 / 5) 0 0 (newGame 80 24)) = Inr (True, 22)
   \<and> real_of_int spawnZ < 22"
proof -
  have v: "lanesValid (newGame 80 24)"
    by (rule lanesValid_newGame)
  have pool: "coinPool (beforeDodge (3 / 5) 0 0 (newGame 80 24)) =
      newCoin 0 0 # newCoin 0 1 # newCoin 0 2
        # replicate 27 \<lparr>coinObj.lane = 0, coinObj.z = 0, coinObj.active = False\<rparr>"
    by (simp add: beforeDodge_fields newGame_def movedCoin_def coinTrail_def claimSlot_replicate
          newCoin_def)
  have "coinPool (laneTransition (3 / 5) (dodged (beforeDodge (3 / 5) 0 0 (newGame 80 24)))) ! 2
          = newCoin 0 2"
    by (simp add: laneTransition_fields dodged_def pool)
  then show ?thesis
    using update_eval [OF v, of 0 "3 / 5" 0]
    by (simp add: numLanes_def newCoin_def spawnZ_def farZ_def)
qed

section \<open>The scenario of one obstacle\<close>

text \<open>
  Claim C8, as amended. In a state with elapsed time 0 and speed 6 whose slot \<open>i\<close> holds an
  active obstacle in lane 1 at depth 10, an \<open>update\<close> with \<open>dt = 1\<close> that returns leaves that
  obstacle active, in lane 1, at depth \<open>10 - 6.05 = 3.95\<close>: the speed is raised to
  \<open>6 + 0.05 * elapsed\<close> before the obstacles move.
\<close>

theorem scenario_obstacle_depth:
  assumes "update 1 ol cl g = Inr g'"
    and "i < length (obstacles g)"
    and "obstacles g ! i = \<lparr>obstacle.lane = 1, obstacle.z = 10, obstacle.active = True\<rparr>"
    and "speed g = 6" and "elapsed g = 0"
  shows "obstacles g' ! i = \<lparr>obstacle.lane = 1, obstacle.z = 395 / 100, obstacle.active = True\<rparr>"
proof -
  let ?m = "map (movedObstacle (rampSpeed (elapsed g + 1) * 1)) (obstacles g)"
  have rs: "rampSpeed (elapsed g + 1) = 605 / 100"
    by (simp add: assms(5) rampSpeed_def)
  have m: "?m ! i = \<lparr>obstacle.lane = 1, obstacle.z = 395 / 100, obstacle.active = True\<rparr>"
    using assms(2,3) by (simp add: rs movedObstacle_def)
  have len: "i < length ?m"
    using assms(2) by simp
  have "obstacle.active (?m ! i)"
    by (simp only: m) simp
  then have "claimSlot obstacle.active (newObstacle ol) ?m ! i = ?m ! i"
    by (rule claimSlot_keeps_active [OF len])
  then have "obstacles g' ! i = ?m ! i"
    using update_fields(11) [OF assms(1)] by (simp add: beforeDodge_fields)
  then show ?thesis
    by (simp only: m)
qed

theorem scenario_obstacle_depth_witness:
  "\<exists>g'. update 1 0 0 scenarioGame = Inr g'
      \<and> obstacles g' ! 0 = \<lparr>obstacle.lane = 1, obstacle.z = 395 / 100, obstacle.active = True\<rparr>"
proof -
  have v: "lanesValid scenarioGame"
    by (simp add: lanesValid_def scenarioGame_def newGame_def numLanes_def list_all_iff)
  obtain g' where u: "update 1 0 0 scenarioGame = Inr g'"
    using update_total [OF v, of 0] by (auto simp: numLanes_def)
  have "obstacles g' ! 0 = \<lparr>obstacle.lane = 1, obstacle.z = 395 / 100, obstacle.active = True\<rparr>"
    by (rule scenario_obstacle_depth [OF u]) (simp_all add: scenarioGame_def newGame_def)
  then show ?thesis using u by blast
qed

text \<open>The claim as stated gives depth 4: in the scenario the depth is 3.95.\<close>

theorem scenario_depth_not_4:
  "map_sum (\<lambda>e. e) (\<lambda>g. (obstacle.z (obstacles g ! 0), obstacle.active (obstacles g ! 0)))
      (update 1 0 0 scenarioGame) = Inr (395 / 100, True)
   \<and> (395 / 100 :: real) \<noteq> 4
   \<and> obstacles scenarioGame ! 0 = \<lparr>obstacle.lane = 1, obstacle.z = 10, obstacle.active = True\<rparr>
   \<and> speed scenarioGame = 6"
proof -
  have v: "lanesValid scenarioGame"
    by (simp add: lanesValid_def scenarioGame_def newGame_def numLanes_def list_all_iff)
  have rs: "rampSpeed 1 = 605 / 100"
    by (simp add: rampSpeed_def)
  have iv: "\<not> spawnInterval (605 / 100) \<le> 1"
    by (simp add: spawnInterval_def)
  have "obstacles (beforeDodge 1 0 0 scenarioGame) ! 0 =
      \<lparr>obstacle.lane = 1, obstacle.z = 395 / 100, obstacle.active = True\<rparr>"
    using iv by (simp add: beforeDodge_fields scenarioGame_def newGame_def rs movedObstacle_def)
  then have "obstacles (laneTransition 1 (dodged (beforeDodge 1 0 0 scenarioGame))) ! 0 =
      \<lparr>obstacle.lane = 1, obstacle.z = 395 / 100, obstacle.active = True\<rparr>"
    by (simp add: laneTransition_fields dodged_def)
  then show ?thesis
    using update_eval [OF v, of 0 1 0]
    by (simp add: numLanes_def scenarioGame_def newGame_def)
qed

section \<open>Row buffer writes stay in bounds\<close>

lemma bufResult_Inr: "length b = n \<Longrightarrow> bufResult n (Inr b)"
  by (simp add: bufResult_def)

lemma bufResult_if:
  "(c \<Longrightarrow> bufResult n a) \<Longrightarrow> (\<not> c \<Longrightarrow> bufResult n b) \<Longrightarrow> bufResult n (if c then a else b)"
  by simp

lemma bufResult_bufSet:
  "0 \<le> x \<Longrightarrow> x < int n \<Longrightarrow> length b = n \<Longrightarrow> bufResult n (bufSet b x c)"
  by (simp add: bufSet_def bufResult_def)

lemma bufResult_thenDo:
  assumes "bufResult n m" and "\<And>b. length b = n \<Longrightarrow> bufResult n (f b)"
  shows "bufResult n (thenDo m f)"
  using assms by (cases m) (simp_all add: bufResult_def)

lemma bufResult_forEach:
  assumes "length buf = n"
    and "\<And>i b. i \<in> set xs \<Longrightarrow> length b = n \<Longrightarrow> bufResult n (body i b)"
  shows "bufResult n (forEach xs body buf)"
proof -
  have "case forEach xs body buf of Inl e \<Rightarrow> False | Inr s' \<Rightarrow> length s' = n"
  proof (rule forEach_rule [where I = "\<lambda>b. length b = n"])
    show "length buf = n" by fact
  next
    fix i and t :: string
    assume "i \<in> set xs" "length t = n"
    then show "case body i t of Inl e \<Rightarrow> False | Inr t' \<Rightarrow> length t' = n"
      using assms(2) by (simp add: bufResult_def)
  qed
  then show ?thesis by (simp add: bufResult_def)
qed

lemma rowResult_bufResult: "bufResult n r \<Longrightarrow> rowResult g n r"
  by (cases r) (simp_all add: bufResult_def rowResult_def)

lemma rowResult_thenDo:
  assumes "bufResult n m" and "\<And>b. length b = n \<Longrightarrow> rowResult g n (f b)"
  shows "rowResult g n (thenDo m f)"
  using assms by (cases m) (simp_all add: bufResult_def)

lemma rowResult_thenDo_buf:
  assumes "rowResult g n m" and "\<And>b. length b = n \<Longrightarrow> bufResult n (f b)"
  shows "rowResult g n (thenDo m f)"
proof (cases m)
  case (Inl e)
  then show ?thesis using assms(1) by simp
next
  case (Inr b)
  then have "length b = n" using assms(1) by (simp add: rowResult_def)
  then show ?thesis using Inr assms(2) by (simp add: rowResult_bufResult)
qed

lemma rowResult_if:
  "(c \<Longrightarrow> rowResult g n a) \<Longrightarrow> (\<not> c \<Longrightarrow> rowResult g n b) \<Longrightarrow> rowResult g n (if c then a else b)"
  by simp

lemma smod_nonneg: "0 \<le> k \<Longrightarrow> 0 < l \<Longrightarrow> k smod l = k mod (l :: int)"
  by (cases "k = 0") (simp_all add: signed_modulo_int_def)

lemma placeStringBytes_ok: "length buf = n \<Longrightarrow> bufResult n (placeStringBytes buf x s)"
  unfolding placeStringBytes_def placeStep_def Let_def
  by (intro bufResult_forEach bufResult_if bufResult_bufSet bufResult_Inr) simp_all

lemma drawSky_ok:
  assumes "length buf = n" and "0 < n"
  shows "bufResult n (drawSky g buf row horizon)"
  unfolding drawSky_def Let_def
  using assms
  by (intro bufResult_thenDo bufResult_forEach bufResult_if bufResult_bufSet bufResult_Inr)
    simp_all

lemma groundTexture_ok: "length buf = n \<Longrightarrow> bufResult n (groundTexture row buf)"
  unfolding groundTexture_def
  by (intro bufResult_forEach bufResult_if bufResult_bufSet bufResult_Inr) simp_all

lemma trackSurface_ok:
  "length buf = n \<Longrightarrow> 0 \<le> left \<Longrightarrow> right < int n \<Longrightarrow> bufResult n (trackSurface left right buf)"
  unfolding trackSurface_def
  by (intro bufResult_forEach bufResult_if bufResult_bufSet bufResult_Inr) simp_all

lemma rails_ok:
  "length buf = n \<Longrightarrow> int n = width g \<Longrightarrow> bufResult n (rails g left right buf)"
  unfolding rails_def
  by (intro bufResult_thenDo bufResult_if bufResult_bufSet bufResult_Inr) simp_all

lemma laneDividers_ok:
  "length buf = n \<Longrightarrow> int n = width g \<Longrightarrow> 0 \<le> left \<Longrightarrow>
   bufResult n (laneDividers g row tw left right buf)"
  unfolding laneDividers_def Let_def
  by (intro bufResult_forEach bufResult_if bufResult_bufSet bufResult_Inr) simp_all

lemma crossTies_ok:
  assumes "length buf = n" and "0 \<le> left" and "right < int n"
  shows "bufResult n (crossTies g row left right buf)"
proof -
  have step: "bufResult n (thenDo (bufGet b x)
                (\<lambda>c. if c = CHR '' '' then bufSet b x CHR ''-'' else Inr b))"
    if "x \<in> set [left + 1..right - 1]" and "length b = n" for x b
  proof -
    have r: "0 \<le> x" "x < int n" using that(1) assms(2,3) by auto
    then have "bufGet b x = Inr (b ! nat x)" using that(2) by (simp add: bufGet_def)
    then show ?thesis
      using r that(2) by (simp add: bufResult_if bufResult_bufSet bufResult_Inr)
  qed
  show ?thesis
    unfolding crossTies_def Let_def
    using assms(1) step by (intro bufResult_if bufResult_forEach bufResult_Inr) simp_all
qed

lemma drawObstacle_ok:
  "length buf = n \<Longrightarrow> int n = width g \<Longrightarrow> bufResult n (drawObstacle g row horizon center i buf)"
  unfolding drawObstacle_def Let_def
  by (intro bufResult_forEach bufResult_if bufResult_bufSet bufResult_Inr) simp_all

lemma drawCoin_ok:
  "length buf = n \<Longrightarrow> int n = width g \<Longrightarrow> bufResult n (drawCoin g row horizon center i buf)"
  unfolding drawCoin_def Let_def
  by (intro bufResult_if bufResult_bufSet bufResult_Inr) simp_all

lemma legs_frame:
  assumes "0 \<le> elapsed g"
  shows "0 \<le> go_int (elapsed g * 8) smod 4 \<and> go_int (elapsed g * 8) smod 4 < int (length legs)"
proof -
  have "0 \<le> go_int (elapsed g * 8)"
    using assms by (simp add: go_int_def)
  then have "go_int (elapsed g * 8) smod 4 = go_int (elapsed g * 8) mod 4"
    by (simp add: smod_nonneg)
  then show ?thesis by (simp add: legs_def)
qed

lemma drawRunner_ok:
  assumes "length buf = n" and "int n = width g"
  shows "rowResult g n (drawRunner g row horizon center buf)"
proof -
  have fail: "rowResult g n (Inl ArrayIndexOutOfRange)"
    if "\<not> (0 \<le> go_int (elapsed g * 8) smod 4 \<and> go_int (elapsed g * 8) smod 4 < int (length legs))"
    by (cases "0 \<le> elapsed g") (use that legs_frame [of g] in \<open>auto simp: rowResult_def\<close>)
  have place: "rowResult g n (placeStringBytes buf x s)" for x s
    by (rule rowResult_bufResult [OF placeStringBytes_ok [OF assms(1)]])
  have head: "rowResult g n (if rx \<ge> 0 \<and> rx < width g then bufSet buf rx CHR ''O'' else Inr buf)" for rx
    using assms
    by (intro rowResult_bufResult bufResult_if bufResult_bufSet bufResult_Inr) simp_all
  have keep: "rowResult g n (Inr buf)"
    using assms(1) by (simp add: rowResult_def)
  show ?thesis
    unfolding drawRunner_def Let_def
    by (intro rowResult_if head place keep fail)
qed

lemma ground_layers_ok:
  assumes "length buf = n" and "int n = width g" and "0 \<le> left" and "right < int n"
  shows "rowResult g n
           (thenDo (groundTexture row buf) (\<lambda>b1.
            thenDo (trackSurface left right b1) (\<lambda>b2.
            thenDo (rails g left right b2) (\<lambda>b3.
            thenDo (laneDividers g row tw left right b3) (\<lambda>b4.
            thenDo (crossTies g row left right b4) (\<lambda>b5.
            thenDo (forEach [0..<length (obstacles g)] (drawObstacle g row horizon center) b5) (\<lambda>b6.
            thenDo (forEach [0..<length (coinPool g)] (drawCoin g row horizon center) b6) (\<lambda>b7.
            drawRunner g row horizon center b7))))))))"
proof -
  have obs: "bufResult n (forEach [0..<length (obstacles g)] (drawObstacle g row horizon center) b)"
    if "length b = n" for b
    using that assms(2) by (intro bufResult_forEach drawObstacle_ok) simp_all
  have cns: "bufResult n (forEach [0..<length (coinPool g)] (drawCoin g row horizon center) b)"
    if "length b = n" for b
    using that assms(2) by (intro bufResult_forEach drawCoin_ok) simp_all
  show ?thesis
    by (intro rowResult_thenDo groundTexture_ok trackSurface_ok rails_ok laneDividers_ok
          crossTies_ok obs cns drawRunner_ok assms)
qed

lemma drawGround_ok:
  assumes "length buf = n" and "int n = width g"
  shows "rowResult g n (drawGround g buf row horizon trackLeft)"
proof -
  have keep: "rowResult g n (Inr buf)"
    using assms(1) by (simp add: rowResult_def)
  have l: "0 \<le> (if left0 < 0 then 0 else left0)" for left0 :: int
    by simp
  have r: "(if right0 \<ge> width g then width g - 1 else right0) < int n" for right0
    using assms(2) by simp
  show ?thesis
    unfolding drawGround_def Let_def
    by (intro rowResult_if keep ground_layers_ok assms l r)
qed

section \<open>Rows and frames\<close>

lemma renderRow_ok:
  assumes "1 \<le> width g"
  shows "rowResult g (nat (width g)) (renderRow g row horizon trackLeft)"
proof -
  let ?n = "nat (width g)"
  have n: "int ?n = width g" "0 < ?n"
    using assms by simp_all
  have fill: "bufResult ?n (forEach [0..<?n] (\<lambda>i b. bufSet b (int i) CHR '' '')
                  (replicate ?n (CHR 0x00)))"
    by (intro bufResult_forEach bufResult_bufSet) (use assms in simp_all)
  have draw: "rowResult g ?n (if row < horizon then drawSky g buf row horizon
                else drawGround g buf row horizon trackLeft)"
    if "length buf = ?n" for buf
    using that n
    by (intro rowResult_if rowResult_bufResult [OF drawSky_ok] drawGround_ok) simp_all
  have hud: "bufResult ?n (placeString b x s)" if "length b = ?n" for b x s
    unfolding placeString_def by (rule placeStringBytes_ok [OF that])
  have keep: "bufResult ?n (Inr b)" if "length b = ?n" for b
    by (rule bufResult_Inr [OF that])
  have rest: "rowResult g ?n
      (thenDo (if row < horizon then drawSky g buf row horizon
                else drawGround g buf row horizon trackLeft) (\<lambda>buf1.
        thenDo (if row = 0
                then (let hud = '' SCORE: '' @ fmt_07d (sint (score g)) @ '' ''
                      in placeString buf1 (width g - int (length hud) - 1) hud)
                else Inr buf1) (\<lambda>buf2.
        if row = 1
        then (let hud = '' COINS: '' @ fmt_d (sint (coins g)) @ '' ''
              in placeString buf2 (width g - int (length hud) - 1) hud)
        else Inr buf2)))"
    if "length buf = ?n" for buf
    unfolding Let_def
    by (intro rowResult_thenDo_buf draw that bufResult_thenDo bufResult_if hud keep)
  show ?thesis
    unfolding renderRow_def
    using assms by (simp add: rowResult_thenDo [OF fill rest])
qed

lemma renderStep_frame:
  assumes "renderStep horizon trackLeft row t = Inr t'"
  shows "\<exists>fr. t' = t\<lparr>frame := fr\<rparr>"
  using assms
  by (auto simp: renderStep_def thenDo_eq_Inr Let_def split: if_splits)

lemma layers_frame:
  "drawSky (t\<lparr>frame := fr\<rparr>) = drawSky t"
  "rails (t\<lparr>frame := fr\<rparr>) = rails t"
  "laneDividers (t\<lparr>frame := fr\<rparr>) = laneDividers t"
  "crossTies (t\<lparr>frame := fr\<rparr>) = crossTies t"
  "drawObstacle (t\<lparr>frame := fr\<rparr>) = drawObstacle t"
  "drawCoin (t\<lparr>frame := fr\<rparr>) = drawCoin t"
  "drawRunner (t\<lparr>frame := fr\<rparr>) = drawRunner t"
  by (simp_all add: fun_eq_iff drawSky_def rails_def laneDividers_def crossTies_def
        drawObstacle_def drawCoin_def drawRunner_def Let_def cong: if_cong)

lemma drawGround_frame: "drawGround (t\<lparr>frame := fr\<rparr>) = drawGround t"
  by (simp add: fun_eq_iff drawGround_def layers_frame Let_def cong: if_cong)

lemma renderRow_frame:
  "renderRow (t\<lparr>frame := fr\<rparr>) row horizon trackLeft = renderRow t row horizon trackLeft"
  by (simp add: renderRow_def layers_frame drawGround_frame Let_def cong: if_cong)

lemma render_only_frame:
  assumes "render g = Inr g'"
  shows "g' = g\<lparr>frame := frame g'\<rparr>"
proof -
  let ?I = "\<lambda>t. \<exists>fr. t = g\<lparr>frame := fr\<rparr>"
  have "case forEach [0..height g - 1] (renderStep (height g sdiv 3) ((width g - trackWidth) sdiv 2))
               (g\<lparr>frame := [CHR 0x1B, CHR ''['', CHR ''H'']\<rparr>) of
          Inl e \<Rightarrow> True | Inr s' \<Rightarrow> ?I s'"
  proof (rule forEach_rule [where I = ?I])
    show "?I (g\<lparr>frame := [CHR 0x1B, CHR ''['', CHR ''H'']\<rparr>)" by blast
  next
    fix row t assume "?I t"
    then obtain fr where t: "t = g\<lparr>frame := fr\<rparr>" by blast
    show "case renderStep (height g sdiv 3) ((width g - trackWidth) sdiv 2) row t of
            Inl e \<Rightarrow> True | Inr t' \<Rightarrow> ?I t'"
    proof (cases "renderStep (height g sdiv 3) ((width g - trackWidth) sdiv 2) row t")
      case (Inl e)
      then show ?thesis by simp
    next
      case (Inr t')
      from renderStep_frame [OF Inr] obtain fr' where "t' = t\<lparr>frame := fr'\<rparr>" by blast
      then have "t' = g\<lparr>frame := fr'\<rparr>" by (simp add: t)
      then show ?thesis using Inr by auto
    qed
  qed
  then have "\<exists>fr. g' = g\<lparr>frame := fr\<rparr>"
    using assms by (simp add: render_def Let_def)
  then obtain fr where "g' = g\<lparr>frame := fr\<rparr>" by blast
  then show ?thesis by simp
qed

lemma render_result:
  assumes "1 \<le> width g"
  shows "case render g of
           Inl e \<Rightarrow> e = ArrayIndexOutOfRange \<and> elapsed g < 0
         | Inr g' \<Rightarrow> \<exists>fr. g' = g\<lparr>frame := fr\<rparr>"
proof -
  let ?I = "\<lambda>t. \<exists>fr. t = g\<lparr>frame := fr\<rparr>"
  have "case forEach [0..height g - 1] (renderStep (height g sdiv 3) ((width g - trackWidth) sdiv 2))
               (g\<lparr>frame := [CHR 0x1B, CHR ''['', CHR ''H'']\<rparr>) of
          Inl e \<Rightarrow> e = ArrayIndexOutOfRange \<and> elapsed g < 0 | Inr s' \<Rightarrow> ?I s'"
  proof (rule forEach_rule [where I = ?I])
    show "?I (g\<lparr>frame := [CHR 0x1B, CHR ''['', CHR ''H'']\<rparr>)" by blast
  next
    fix row t assume "?I t"
    then obtain fr where t: "t = g\<lparr>frame := fr\<rparr>" by blast
    have "rowResult g (nat (width g))
            (renderRow g row (height g sdiv 3) ((width g - trackWidth) sdiv 2))"
      by (rule renderRow_ok [OF assms])
    then have rr: "rowResult g (nat (width g))
            (renderRow t row (height g sdiv 3) ((width g - trackWidth) sdiv 2))"
      by (simp add: t renderRow_frame)
    show "case renderStep (height g sdiv 3) ((width g - trackWidth) sdiv 2) row t of
            Inl e \<Rightarrow> e = ArrayIndexOutOfRange \<and> elapsed g < 0 | Inr t' \<Rightarrow> ?I t'"
    proof (cases "renderRow t row (height g sdiv 3) ((width g - trackWidth) sdiv 2)")
      case (Inl e)
      then show ?thesis using rr by (simp add: renderStep_def rowResult_def)
    next
      case (Inr line)
      then show ?thesis by (auto simp: renderStep_def Let_def t)
    qed
  qed
  then show ?thesis
    by (simp add: render_def Let_def)
qed

text \<open>
  Claim C5. For a viewport of width and height at least 1, \<open>render\<close> never ends in the
  panic of a row buffer access outside \<open>[0, width)\<close>: it returns a frame, or, when the
  elapsed time is negative, it stops at the index into \<^verbatim>\<open>legs\<close>. Every assignment to a row
  buffer is checked by \<open>bufSet\<close> against the length of the buffer, which is \<open>width g\<close>.
\<close>

theorem render_writes_in_bounds:
  assumes "1 \<le> width g" and "1 \<le> height g"
  shows "render g \<noteq> Inl BufferIndexOutOfRange
         \<and> (0 \<le> elapsed g \<longrightarrow> (\<exists>g'. render g = Inr g'))
         \<and> (\<forall>e. render g = Inl e \<longrightarrow> e = ArrayIndexOutOfRange \<and> elapsed g < 0)"
  using render_result [OF assms(1)]
  by (cases "render g") auto

theorem render_writes_in_bounds_witness:
  "render dodgeGame \<noteq> Inl BufferIndexOutOfRange \<and> (\<exists>g'. render dodgeGame = Inr g')"
proof -
  have "1 \<le> width dodgeGame" "1 \<le> height dodgeGame" "0 \<le> elapsed dodgeGame"
    by (simp_all add: dodgeGame_def newGame_def)
  then show ?thesis
    using render_writes_in_bounds [of dodgeGame] by blast
qed

text \<open>
  Claim C6. Whenever \<open>render\<close> returns, the state it returns differs from the state it
  was given in the \<open>frame\<close> field only, which holds the output bytes: the viewport, speed,
  score, coins, both lanes, \<open>laneX\<close>, the scroll offset, the elapsed time, both spawn
  timers and both pools are as before.
\<close>

theorem render_mutates_frame_only:
  assumes "render g = Inr g'"
  shows "width g' = width g \<and> height g' = height g \<and> speed g' = speed g
         \<and> score g' = score g \<and> coins g' = coins g
         \<and> runnerLane g' = runnerLane g \<and> targetLane g' = targetLane g \<and> laneX g' = laneX g
         \<and> scrollOff g' = scrollOff g \<and> elapsed g' = elapsed g
         \<and> spawnTimer g' = spawnTimer g \<and> coinTimer g' = coinTimer g
         \<and> obstacles g' = obstacles g \<and> coinPool g' = coinPool g
         \<and> g' = g\<lparr>frame := frame g'\<rparr>"
proof -
  have "g' = g\<lparr>frame := frame g'\<rparr>"
    by (rule render_only_frame [OF assms])
  then show ?thesis
    by (cases g, cases g') simp
qed

theorem render_mutates_frame_only_witness:
  "\<exists>g'. render fullGame = Inr g'
      \<and> score g' = score fullGame \<and> coins g' = coins fullGame
      \<and> obstacles g' = obstacles fullGame \<and> coinPool g' = coinPool fullGame
      \<and> g' = fullGame\<lparr>frame := frame g'\<rparr>"
proof -
  have "1 \<le> width fullGame" "0 \<le> elapsed fullGame"
    by (simp_all add: fullGame_def newGame_def)
  then obtain g' where r: "render fullGame = Inr g'"
    using render_result [of fullGame] by (cases "render fullGame") auto
  from render_mutates_frame_only [OF r] show ?thesis
    using r by blast
qed

section \<open>The entity passes\<close>

lemma paint_range:
  assumes "hi < int (length b)"
  shows "\<exists>b'. forEach [lo..hi] (\<lambda>x b. if x \<ge> 0 then bufSet b x c else Inr b) b = Inr b'
           \<and> length b' = length b
           \<and> (\<forall>k < length b. b' ! k = (if lo \<le> int k \<and> int k \<le> hi then c else b ! k))"
  using assms
proof (induction "nat (hi - lo + 1)" arbitrary: lo b)
  case 0
  then have "[lo..hi] = []" by simp
  moreover have "hi < lo" using 0 by simp
  ultimately show ?case by auto
next
  case (Suc m)
  then have le: "lo \<le> hi" by simp
  then have up: "[lo..hi] = lo # [lo + 1..hi]" by (simp add: upto_rec1)
  define b1 where "b1 = (if lo \<ge> 0 then b[nat lo := c] else b)"
  have s1: "(if lo \<ge> 0 then bufSet b lo c else Inr b) = Inr b1"
    using le Suc.prems by (simp add: b1_def bufSet_def)
  have l1: "length b1 = length b" by (simp add: b1_def)
  have "m = nat (hi - (lo + 1) + 1)" using Suc.hyps(2) by simp
  from Suc.hyps(1) [OF this, of b1] Suc.prems l1
  obtain b' where r: "forEach [lo + 1..hi] (\<lambda>x b. if x \<ge> 0 then bufSet b x c else Inr b) b1 = Inr b'"
    and l: "length b' = length b1"
    and c: "\<forall>k < length b1. b' ! k = (if lo + 1 \<le> int k \<and> int k \<le> hi then c else b1 ! k)"
    by auto
  have "\<forall>k < length b. b' ! k = (if lo \<le> int k \<and> int k \<le> hi then c else b ! k)"
  proof (intro allI impI)
    fix k assume k: "k < length b"
    show "b' ! k = (if lo \<le> int k \<and> int k \<le> hi then c else b ! k)"
    proof (cases "int k = lo")
      case True
      then have "b1 ! k = c" using k by (auto simp: b1_def)
      then show ?thesis using c k l1 True le by simp
    next
      case False
      then have "b1 ! k = b ! k" using k by (auto simp: b1_def nth_list_update)
      then show ?thesis using c k l1 False by auto
    qed
  qed
  then show ?case
    using r l l1 by (simp add: up s1)
qed

lemma drawCoin_char:
  assumes "int (length buf) = width g"
  shows "drawCoin g row horizon center i buf =
           Inr (if entityDrawn (coinObj.active (coinPool g ! i)) (coinObj.z (coinPool g ! i))
                   \<and> row = entityRow g horizon (coinObj.z (coinPool g ! i))
                   \<and> 0 \<le> coinColumn center (coinPool g ! i)
                   \<and> coinColumn center (coinPool g ! i) < width g
                then buf[nat (coinColumn center (coinPool g ! i)) := CHR ''o'']
                else buf)"
  using assms
  by (simp add: drawCoin_def Let_def entityDrawn_def entityRow_def entityTw_def coinColumn_def
        depthFraction_def bufSet_def not_less)

lemma drawObstacle_char:
  assumes "int (length buf) = width g"
  shows "\<exists>b'. drawObstacle g row horizon center i buf = Inr b' \<and> length b' = length buf
           \<and> (\<forall>k < length buf. b' ! k =
                 (if entityDrawn (obstacle.active (obstacles g ! i)) (obstacle.z (obstacles g ! i))
                     \<and> entityRow g horizon (obstacle.z (obstacles g ! i)) - 2 \<le> row
                     \<and> row \<le> entityRow g horizon (obstacle.z (obstacles g ! i))
                     \<and> obstacleLeft center (obstacles g ! i) \<le> int k
                     \<and> int k < obstacleLeft center (obstacles g ! i) + obstacleWidth (obstacles g ! i)
                  then CHR ''#'' else buf ! k))"
proof (cases "entityDrawn (obstacle.active (obstacles g ! i)) (obstacle.z (obstacles g ! i))
                \<and> entityRow g horizon (obstacle.z (obstacles g ! i)) - 2 \<le> row
                \<and> row \<le> entityRow g horizon (obstacle.z (obstacles g ! i))")
  case False
  then have "drawObstacle g row horizon center i buf = Inr buf"
    by (auto simp: drawObstacle_def Let_def entityDrawn_def entityRow_def entityTw_def
          depthFraction_def not_less)
  then show ?thesis using False by auto
next
  case True
  let ?ox = "obstacleLeft center (obstacles g ! i)"
  let ?ow = "obstacleWidth (obstacles g ! i)"
  let ?hi = "min (?ox + ?ow) (width g) - 1"
  have eq: "drawObstacle g row horizon center i buf =
      forEach [?ox..?hi] (\<lambda>x b. if x \<ge> 0 then bufSet b x CHR ''#'' else Inr b) buf"
    using True
    by (simp add: drawObstacle_def Let_def entityDrawn_def entityRow_def entityTw_def
          depthFraction_def obstacleLeft_def obstacleWidth_def not_less cong: if_cong)
  have "?hi < int (length buf)" using assms by simp
  from paint_range [OF this, of ?ox "CHR ''#''"] obtain b' where
    r: "forEach [?ox..?hi] (\<lambda>x b. if x \<ge> 0 then bufSet b x CHR ''#'' else Inr b) buf = Inr b'"
    and l: "length b' = length buf"
    and c: "\<forall>k < length buf. b' ! k = (if ?ox \<le> int k \<and> int k \<le> ?hi then CHR ''#'' else buf ! k)"
    by blast
  have "\<forall>k < length buf. b' ! k = (if ?ox \<le> int k \<and> int k < ?ox + ?ow then CHR ''#'' else buf ! k)"
    using c assms by auto
  then show ?thesis
    using True r l by (simp add: eq)
qed

section \<open>The layers above the entities\<close>




lemma drawRunner_alt:
  "drawRunner g row horizon center buf =
     (if row = runnerRow g horizon - 2
      then (if runnerColumn g center \<ge> 0 \<and> runnerColumn g center < width g
            then bufSet buf (runnerColumn g center) CHR ''O'' else Inr buf)
      else if row = runnerRow g horizon - 1
      then placeStringBytes buf (runnerColumn g center - 1) [CHR ''/'', CHR ''|'', CHR 0x5C]
      else if row = runnerRow g horizon
      then (if 0 \<le> go_int (elapsed g * 8) smod 4
               \<and> go_int (elapsed g * 8) smod 4 < int (length legs)
            then placeStringBytes buf (runnerColumn g center - 1)
                   (legs ! nat (go_int (elapsed g * 8) smod 4))
            else Inl ArrayIndexOutOfRange)
      else Inr buf)"
  unfolding drawRunner_def Let_def runnerRow_def runnerColumn_def ..



section \<open>The entity passes inside a row\<close>

lemma coin_pass_cell:
  assumes "forEach xs (drawCoin g row horizon center) buf = Inr b'"
    and "int (length buf) = width g"
  shows "length b' = length buf
         \<and> (\<forall>k < length buf.
               (b' ! k = CHR ''o'' \<or> b' ! k = buf ! k)
               \<and> (buf ! k = CHR ''o''
                    \<or> (\<exists>i \<in> set xs.
                          entityDrawn (coinObj.active (coinPool g ! i)) (coinObj.z (coinPool g ! i))
                          \<and> row = entityRow g horizon (coinObj.z (coinPool g ! i))
                          \<and> coinColumn center (coinPool g ! i) = int k)
                    \<longrightarrow> b' ! k = CHR ''o''))"
  using assms
proof (induction xs arbitrary: buf)
  case Nil
  then show ?case by simp
next
  case (Cons i xs)
  let ?C = "entityDrawn (coinObj.active (coinPool g ! i)) (coinObj.z (coinPool g ! i))
              \<and> row = entityRow g horizon (coinObj.z (coinPool g ! i))
              \<and> 0 \<le> coinColumn center (coinPool g ! i)
              \<and> coinColumn center (coinPool g ! i) < width g"
  define b1 where "b1 = (if ?C then buf[nat (coinColumn center (coinPool g ! i)) := CHR ''o''] else buf)"
  have s1: "drawCoin g row horizon center i buf = Inr b1"
    unfolding b1_def by (rule drawCoin_char [OF Cons.prems(2)])
  then have s2: "forEach xs (drawCoin g row horizon center) b1 = Inr b'"
    using Cons.prems(1) by simp
  have l1: "length b1 = length buf" by (simp add: b1_def)
  then have w1: "int (length b1) = width g" using Cons.prems(2) by simp
  note ih = Cons.IH [OF s2 w1]
  have cell: "b1 ! k = CHR ''o'' \<or> b1 ! k = buf ! k" if "k < length buf" for k
    using that by (cases "k = nat (coinColumn center (coinPool g ! i))") (auto simp: b1_def)
  have hit: "b1 ! k = CHR ''o''"
    if "k < length buf" "entityDrawn (coinObj.active (coinPool g ! i)) (coinObj.z (coinPool g ! i))"
      "row = entityRow g horizon (coinObj.z (coinPool g ! i))"
      "coinColumn center (coinPool g ! i) = int k" for k
    using that Cons.prems(2) by (auto simp: b1_def)
  show ?case
  proof (intro conjI allI impI)
    show "length b' = length buf" using ih l1 by simp
  next
    fix k assume k: "k < length buf"
    then have k1: "k < length b1" using l1 by simp
    show "b' ! k = CHR ''o'' \<or> b' ! k = buf ! k"
      using ih k1 cell [OF k] by auto
  next
    fix k assume k: "k < length buf"
      and h: "buf ! k = CHR ''o''
              \<or> (\<exists>i \<in> set (i # xs).
                    entityDrawn (coinObj.active (coinPool g ! i)) (coinObj.z (coinPool g ! i))
                    \<and> row = entityRow g horizon (coinObj.z (coinPool g ! i))
                    \<and> coinColumn center (coinPool g ! i) = int k)"
    then have k1: "k < length b1" using l1 by simp
    from h have "b1 ! k = CHR ''o''
              \<or> (\<exists>i \<in> set xs.
                    entityDrawn (coinObj.active (coinPool g ! i)) (coinObj.z (coinPool g ! i))
                    \<and> row = entityRow g horizon (coinObj.z (coinPool g ! i))
                    \<and> coinColumn center (coinPool g ! i) = int k)"
      using cell [OF k] hit [OF k] by auto
    then show "b' ! k = CHR ''o''"
      using ih k1 by blast
  qed
qed

lemma obstacle_pass_cell:
  assumes "forEach xs (drawObstacle g row horizon center) buf = Inr b'"
    and "int (length buf) = width g"
  shows "length b' = length buf
         \<and> (\<forall>k < length buf.
               buf ! k = CHR ''#''
               \<or> (\<exists>j \<in> set xs.
                     entityDrawn (obstacle.active (obstacles g ! j)) (obstacle.z (obstacles g ! j))
                     \<and> entityRow g horizon (obstacle.z (obstacles g ! j)) - 2 \<le> row
                     \<and> row \<le> entityRow g horizon (obstacle.z (obstacles g ! j))
                     \<and> obstacleLeft center (obstacles g ! j) \<le> int k
                     \<and> int k < obstacleLeft center (obstacles g ! j)
                                 + obstacleWidth (obstacles g ! j))
               \<longrightarrow> b' ! k = CHR ''#'')"
  using assms
proof (induction xs arbitrary: buf)
  case Nil
  then show ?case by simp
next
  case (Cons j xs)
  from drawObstacle_char [OF Cons.prems(2), of row horizon center j]
  obtain b1 where s1: "drawObstacle g row horizon center j buf = Inr b1"
    and l1: "length b1 = length buf"
    and c1: "\<forall>k < length buf. b1 ! k =
                 (if entityDrawn (obstacle.active (obstacles g ! j)) (obstacle.z (obstacles g ! j))
                     \<and> entityRow g horizon (obstacle.z (obstacles g ! j)) - 2 \<le> row
                     \<and> row \<le> entityRow g horizon (obstacle.z (obstacles g ! j))
                     \<and> obstacleLeft center (obstacles g ! j) \<le> int k
                     \<and> int k < obstacleLeft center (obstacles g ! j) + obstacleWidth (obstacles g ! j)
                  then CHR ''#'' else buf ! k)"
    by blast
  have s2: "forEach xs (drawObstacle g row horizon center) b1 = Inr b'"
    using Cons.prems(1) s1 by simp
  have w1: "int (length b1) = width g" using Cons.prems(2) l1 by simp
  note ih = Cons.IH [OF s2 w1]
  show ?case
  proof (intro conjI allI impI)
    show "length b' = length buf" using ih l1 by simp
  next
    fix k assume k: "k < length buf"
      and h: "buf ! k = CHR ''#''
               \<or> (\<exists>j \<in> set (j # xs).
                     entityDrawn (obstacle.active (obstacles g ! j)) (obstacle.z (obstacles g ! j))
                     \<and> entityRow g horizon (obstacle.z (obstacles g ! j)) - 2 \<le> row
                     \<and> row \<le> entityRow g horizon (obstacle.z (obstacles g ! j))
                     \<and> obstacleLeft center (obstacles g ! j) \<le> int k
                     \<and> int k < obstacleLeft center (obstacles g ! j)
                                 + obstacleWidth (obstacles g ! j))"
    then have k1: "k < length b1" using l1 by simp
    from h have "b1 ! k = CHR ''#''
               \<or> (\<exists>j \<in> set xs.
                     entityDrawn (obstacle.active (obstacles g ! j)) (obstacle.z (obstacles g ! j))
                     \<and> entityRow g horizon (obstacle.z (obstacles g ! j)) - 2 \<le> row
                     \<and> row \<le> entityRow g horizon (obstacle.z (obstacles g ! j))
                     \<and> obstacleLeft center (obstacles g ! j) \<le> int k
                     \<and> int k < obstacleLeft center (obstacles g ! j)
                                 + obstacleWidth (obstacles g ! j))"
      using c1 k by auto
    then show "b' ! k = CHR ''#''"
      using ih k1 by blast
  qed
qed

lemma bufResult_length: "bufResult n r \<Longrightarrow> r = Inr b \<Longrightarrow> length b = n"
  by (simp add: bufResult_def)




section \<open>The rows of a frame\<close>

lemma renderRow_length:
  assumes "renderRow g row horizon trackLeft = Inr line" and "1 \<le> width g"
  shows "length line = nat (width g)"
  using renderRow_ok [OF assms(2), of row horizon trackLeft] assms(1)
  by (simp add: rowResult_def)

lemma render_rows_from:
  assumes "forEach [k..hi] (renderStep h tleft) (g\<lparr>frame := fr\<rparr>) = Inr t'"
    and "1 \<le> width g" and "hi = height g - 1"
  shows "\<exists>rest. frame t' = fr @ rest
           \<and> (\<forall>row. k \<le> row \<and> row \<le> hi \<longrightarrow>
                 (\<exists>line. renderRow g row h tleft = Inr line
                    \<and> take (nat (width g)) (drop (nat (row - k) * (nat (width g) + 2)) rest) = line))"
  using assms(1)
proof (induction "nat (hi - k + 1)" arbitrary: k fr)
  case 0
  then have "[k..hi] = []" by simp
  then have "frame t' = fr" using 0 by auto
  moreover have "hi < k" using 0 by simp
  ultimately show ?case by (intro exI [of _ "[]"]) auto
next
  case (Suc m)
  let ?w = "nat (width g)"
  from Suc.hyps(2) have le: "k \<le> hi" by simp
  then have up: "[k..hi] = k # [k + 1..hi]" by (simp add: upto_rec1)
  from Suc.prems obtain t1 where s1: "renderStep h tleft k (g\<lparr>frame := fr\<rparr>) = Inr t1"
    and s2: "forEach [k + 1..hi] (renderStep h tleft) t1 = Inr t'"
    by (auto simp: up thenDo_eq_Inr)
  from s1 obtain line where rr: "renderRow g k h tleft = Inr line"
    and t1: "t1 = g\<lparr>frame := fr @ line @ (if k < hi then [CHR 0x0D, CHR 0x0A] else [])\<rparr>"
    by (auto simp: renderStep_def thenDo_eq_Inr renderRow_frame Let_def assms(3))
  have len: "length line = ?w"
    by (rule renderRow_length [OF rr assms(2)])
  have m: "m = nat (hi - (k + 1) + 1)" using Suc.hyps(2) by simp
  from Suc.hyps(1) [OF m s2 [unfolded t1]]
  obtain rest1 where f: "frame t' = (fr @ line @ (if k < hi then [CHR 0x0D, CHR 0x0A] else [])) @ rest1"
    and rows: "\<forall>row. k + 1 \<le> row \<and> row \<le> hi \<longrightarrow>
                 (\<exists>line. renderRow g row h tleft = Inr line
                    \<and> take ?w (drop (nat (row - (k + 1)) * (?w + 2)) rest1) = line)"
    by blast
  let ?rest = "line @ (if k < hi then [CHR 0x0D, CHR 0x0A] else []) @ rest1"
  have "\<exists>l. renderRow g row h tleft = Inr l
              \<and> take ?w (drop (nat (row - k) * (?w + 2)) ?rest) = l"
    if r: "k \<le> row" "row \<le> hi" for row
  proof (cases "row = k")
    case True
    then show ?thesis using rr len by simp
  next
    case False
    then have r1: "k + 1 \<le> row" and khi: "k < hi" using r by simp_all
    from rows r1 r(2) obtain l where l: "renderRow g row h tleft = Inr l"
      "take ?w (drop (nat (row - (k + 1)) * (?w + 2)) rest1) = l"
      by blast
    have "nat (row - k) = Suc (nat (row - (k + 1)))" using r1 by simp
    then have "nat (row - k) * (?w + 2) = (?w + 2) + nat (row - (k + 1)) * (?w + 2)"
      by simp
    moreover have "length (line @ [CHR 0x0D, CHR 0x0A]) = ?w + 2" using len by simp
    ultimately have "drop (nat (row - k) * (?w + 2)) ((line @ [CHR 0x0D, CHR 0x0A]) @ rest1)
                       = drop (nat (row - (k + 1)) * (?w + 2)) rest1"
      by (simp only: drop_append) simp
    then show ?thesis using l khi by simp
  qed
  then show ?case using f by auto
qed

lemma render_row:
  assumes "render g = Inr g'" and "1 \<le> width g" and "0 \<le> row" and "row < height g"
  shows "\<exists>line. renderRow g row (height g sdiv 3) ((width g - trackWidth) sdiv 2) = Inr line
           \<and> frameRow g (frame g') row = line"
proof -
  have "forEach [0..height g - 1] (renderStep (height g sdiv 3) ((width g - trackWidth) sdiv 2))
          (g\<lparr>frame := [CHR 0x1B, CHR ''['', CHR ''H'']\<rparr>) = Inr g'"
    using assms(1) by (simp add: render_def Let_def)
  from render_rows_from [OF this assms(2) refl]
  obtain rest where f: "frame g' = [CHR 0x1B, CHR ''['', CHR ''H''] @ rest"
    and rows: "\<forall>row. 0 \<le> row \<and> row \<le> height g - 1 \<longrightarrow>
                 (\<exists>line. renderRow g row (height g sdiv 3) ((width g - trackWidth) sdiv 2) = Inr line
                    \<and> take (nat (width g)) (drop (nat (row - 0) * (nat (width g) + 2)) rest) = line)"
    by blast
  from rows assms(3,4) obtain line where
    l: "renderRow g row (height g sdiv 3) ((width g - trackWidth) sdiv 2) = Inr line"
      "take (nat (width g)) (drop (nat row * (nat (width g) + 2)) rest) = line"
    by auto
  have "drop (3 + m) ([CHR 0x1B, CHR ''['', CHR ''H''] @ rest) = drop m rest" for m
    by (simp add: numeral_3_eq_3)
  then have "frameRow g (frame g') row = line"
    using l(2) by (simp only: frameRow_def f)
  then show ?thesis using l(1) by blast
qed



section \<open>Entities in the frame\<close>




section \<open>Entities that are skipped\<close>

lemma drawCoin_skip:
  "\<not> entityDrawn (coinObj.active (coinPool g ! i)) (coinObj.z (coinPool g ! i)) \<Longrightarrow>
   drawCoin g row horizon center i buf = Inr buf"
  by (auto simp: drawCoin_def Let_def entityDrawn_def entityTw_def depthFraction_def not_less)

lemma forEach_id:
  "(\<And>i. i \<in> set xs \<Longrightarrow> body i s = Inr s) \<Longrightarrow> forEach xs body s = Inr s"
  by (induction xs) simp_all

lemma coin_loop_skip:
  assumes "list_all (\<lambda>c. \<not> entityDrawn (coinObj.active c) (coinObj.z c)) (coinPool g)"
  shows "forEach [0..<length (coinPool g)] (drawCoin g row horizon center) b = Inr b"
proof (rule forEach_id)
  fix i assume "i \<in> set [0..<length (coinPool g)]"
  then have "coinPool g ! i \<in> set (coinPool g)" by simp
  then have "\<not> entityDrawn (coinObj.active (coinPool g ! i)) (coinObj.z (coinPool g ! i))"
    using assms by (simp add: list_all_iff)
  then show "drawCoin g row horizon center i b = Inr b" by (rule drawCoin_skip)
qed

lemma layers_coinPool:
  "drawSky (t\<lparr>coinPool := cp\<rparr>) = drawSky t"
  "rails (t\<lparr>coinPool := cp\<rparr>) = rails t"
  "laneDividers (t\<lparr>coinPool := cp\<rparr>) = laneDividers t"
  "crossTies (t\<lparr>coinPool := cp\<rparr>) = crossTies t"
  "drawObstacle (t\<lparr>coinPool := cp\<rparr>) = drawObstacle t"
  "drawRunner (t\<lparr>coinPool := cp\<rparr>) = drawRunner t"
  by (simp_all add: fun_eq_iff drawSky_def rails_def laneDividers_def crossTies_def
        drawObstacle_def drawRunner_def Let_def cong: if_cong)

lemma renderRow_coins_skipped:
  assumes "list_all (\<lambda>c. \<not> entityDrawn (coinObj.active c) (coinObj.z c)) (coinPool t)"
    and "list_all (\<lambda>c. \<not> entityDrawn (coinObj.active c) (coinObj.z c)) cp"
  shows "renderRow (t\<lparr>coinPool := cp\<rparr>) row horizon trackLeft = renderRow t row horizon trackLeft"
proof -
  have a: "forEach [0..<length (coinPool t)] (drawCoin t row horizon center) b = Inr b" for center b
    by (rule coin_loop_skip [OF assms(1)])
  have "forEach [0..<length (coinPool (t\<lparr>coinPool := cp\<rparr>))]
          (drawCoin (t\<lparr>coinPool := cp\<rparr>) row horizon center) b = Inr b" for center b
    by (rule coin_loop_skip) (simp add: assms(2))
  then have b: "forEach [0..<length cp] (drawCoin (t\<lparr>coinPool := cp\<rparr>) row horizon center) b = Inr b"
    for center b
    by simp
  have "drawGround (t\<lparr>coinPool := cp\<rparr>) buf row horizon trackLeft
          = drawGround t buf row horizon trackLeft" for buf
    by (simp add: drawGround_def layers_coinPool a b Let_def cong: if_cong)
  then show ?thesis
    by (simp add: renderRow_def layers_coinPool Let_def cong: if_cong)
qed

lemma forEach_sim:
  assumes "R s t"
    and "\<And>i s t. i \<in> set xs \<Longrightarrow> R s t \<Longrightarrow> rel_sum (=) R (f i s) (f' i t)"
  shows "rel_sum (=) R (forEach xs f s) (forEach xs f' t)"
  using assms
proof (induction xs arbitrary: s t)
  case Nil
  then show ?case by simp
next
  case (Cons x xs)
  have step: "rel_sum (=) R (f x s) (f' x t)"
    using Cons.prems by simp
  show ?case
  proof (cases "f x s")
    case (Inl e)
    then show ?thesis using step by (cases "f' x t") simp_all
  next
    case (Inr s1)
    then obtain t1 where t1: "f' x t = Inr t1" "R s1 t1"
      using step by (cases "f' x t") simp_all
    have "rel_sum (=) R (forEach xs f s1) (forEach xs f' t1)"
      using Cons.IH [OF t1(2)] Cons.prems(2) by simp
    then show ?thesis by (simp add: Inr t1(1))
  qed
qed

lemma render_coins_skipped:
  assumes "list_all (\<lambda>c. \<not> entityDrawn (coinObj.active c) (coinObj.z c)) (coinPool g)"
    and "list_all (\<lambda>c. \<not> entityDrawn (coinObj.active c) (coinObj.z c)) cp"
  shows "map_sum (\<lambda>e. e) frame (render (g\<lparr>coinPool := cp\<rparr>)) = map_sum (\<lambda>e. e) frame (render g)"
proof -
  let ?R = "\<lambda>s t. s = t\<lparr>coinPool := cp\<rparr> \<and> coinPool t = coinPool g"
  let ?h = "height g sdiv 3" and ?tl = "(width g - trackWidth) sdiv 2"
  have "rel_sum (=) ?R
          (forEach [0..height g - 1] (renderStep ?h ?tl)
             (g\<lparr>coinPool := cp, frame := [CHR 0x1B, CHR ''['', CHR ''H'']\<rparr>))
          (forEach [0..height g - 1] (renderStep ?h ?tl)
             (g\<lparr>frame := [CHR 0x1B, CHR ''['', CHR ''H'']\<rparr>))"
  proof (rule forEach_sim)
    show "?R (g\<lparr>coinPool := cp, frame := [CHR 0x1B, CHR ''['', CHR ''H'']\<rparr>)
             (g\<lparr>frame := [CHR 0x1B, CHR ''['', CHR ''H'']\<rparr>)"
      by simp
  next
    fix row and s t :: game
    assume R: "?R s t"
    then have "list_all (\<lambda>c. \<not> entityDrawn (coinObj.active c) (coinObj.z c)) (coinPool t)"
      using assms(1) by simp
    from renderRow_coins_skipped [OF this assms(2)]
    have rr: "renderRow (t\<lparr>coinPool := cp\<rparr>) row ?h ?tl = renderRow t row ?h ?tl"
      by simp
    have s: "s = t\<lparr>coinPool := cp\<rparr>" and cp: "coinPool t = coinPool g"
      using R by simp_all
    show "rel_sum (=) ?R (renderStep ?h ?tl row s) (renderStep ?h ?tl row t)"
      unfolding s
      by (cases "renderRow t row ?h ?tl") (simp_all add: renderStep_def rr Let_def cp)
  qed
  then have "rel_sum (=) ?R (render (g\<lparr>coinPool := cp\<rparr>)) (render g)"
    by (simp add: render_def Let_def)
  then show ?thesis
    by (cases "render (g\<lparr>coinPool := cp\<rparr>)"; cases "render g") simp_all
qed


section \<open>Entities that never reach the frame\<close>

lemma drawCoin_off_row:
  "\<not> (entityDrawn (coinObj.active (coinPool g ! i)) (coinObj.z (coinPool g ! i))
       \<and> row = entityRow g horizon (coinObj.z (coinPool g ! i))) \<Longrightarrow>
   drawCoin g row horizon center i buf = Inr buf"
  by (auto simp: drawCoin_def Let_def entityDrawn_def entityRow_def entityTw_def
        depthFraction_def not_less)

lemma coin_loop_off_row:
  assumes "list_all (\<lambda>c. \<not> (entityDrawn (coinObj.active c) (coinObj.z c)
                            \<and> row = entityRow g horizon (coinObj.z c))) (coinPool g)"
  shows "forEach [0..<length (coinPool g)] (drawCoin g row horizon center) b = Inr b"
proof (rule forEach_id)
  fix i assume "i \<in> set [0..<length (coinPool g)]"
  then have "coinPool g ! i \<in> set (coinPool g)" by simp
  then have "\<not> (entityDrawn (coinObj.active (coinPool g ! i)) (coinObj.z (coinPool g ! i))
                \<and> row = entityRow g horizon (coinObj.z (coinPool g ! i)))"
    using assms by (simp add: list_all_iff)
  then show "drawCoin g row horizon center i b = Inr b" by (rule drawCoin_off_row)
qed

lemma renderRow_coins_off_row:
  assumes "row < horizon
           \<or> real_of_int (row - horizon) / real_of_int (height t - horizon) \<le> 0
           \<or> (list_all (\<lambda>c. \<not> (entityDrawn (coinObj.active c) (coinObj.z c)
                                 \<and> row = entityRow t horizon (coinObj.z c))) (coinPool t)
              \<and> list_all (\<lambda>c. \<not> (entityDrawn (coinObj.active c) (coinObj.z c)
                                   \<and> row = entityRow t horizon (coinObj.z c))) cp)"
  shows "renderRow (t\<lparr>coinPool := cp\<rparr>) row horizon trackLeft = renderRow t row horizon trackLeft"
proof -
  have "drawGround (t\<lparr>coinPool := cp\<rparr>) buf row horizon trackLeft
          = drawGround t buf row horizon trackLeft"
    if "\<not> row < horizon" for buf
  proof (cases "real_of_int (row - horizon) / real_of_int (height t - horizon) \<le> 0")
    case True
    then show ?thesis by (simp add: drawGround_def)
  next
    case False
    then have p: "list_all (\<lambda>c. \<not> (entityDrawn (coinObj.active c) (coinObj.z c)
                                 \<and> row = entityRow t horizon (coinObj.z c))) (coinPool t)"
      and q: "list_all (\<lambda>c. \<not> (entityDrawn (coinObj.active c) (coinObj.z c)
                                   \<and> row = entityRow t horizon (coinObj.z c))) cp"
      using assms that by auto
    have er: "entityRow (t\<lparr>coinPool := cp\<rparr>) horizon zz = entityRow t horizon zz" for zz
      by (simp add: entityRow_def)
    have a: "forEach [0..<length (coinPool t)] (drawCoin t row horizon center) b = Inr b" for center b
      by (rule coin_loop_off_row [OF p])
    have "forEach [0..<length (coinPool (t\<lparr>coinPool := cp\<rparr>))]
            (drawCoin (t\<lparr>coinPool := cp\<rparr>) row horizon center) b = Inr b" for center b
      by (rule coin_loop_off_row) (use q in \<open>simp add: er\<close>)
    then have b: "forEach [0..<length cp] (drawCoin (t\<lparr>coinPool := cp\<rparr>) row horizon center) b = Inr b"
      for center b
      by simp
    show ?thesis
      by (simp add: drawGround_def layers_coinPool a b Let_def cong: if_cong)
  qed
  then show ?thesis
    by (simp add: renderRow_def layers_coinPool Let_def cong: if_cong)
qed

lemma render_coins_off_rows:
  assumes "\<And>row. row < height g sdiv 3
           \<or> real_of_int (row - height g sdiv 3) / real_of_int (height g - height g sdiv 3) \<le> 0
           \<or> (list_all (\<lambda>c. \<not> (entityDrawn (coinObj.active c) (coinObj.z c)
                                 \<and> row = entityRow g (height g sdiv 3) (coinObj.z c))) (coinPool g)
              \<and> list_all (\<lambda>c. \<not> (entityDrawn (coinObj.active c) (coinObj.z c)
                                   \<and> row = entityRow g (height g sdiv 3) (coinObj.z c))) cp)"
  shows "map_sum (\<lambda>e. e) frame (render (g\<lparr>coinPool := cp\<rparr>)) = map_sum (\<lambda>e. e) frame (render g)"
proof -
  let ?R = "\<lambda>s t. s = t\<lparr>coinPool := cp\<rparr> \<and> coinPool t = coinPool g \<and> height t = height g"
  let ?h = "height g sdiv 3" and ?tl = "(width g - trackWidth) sdiv 2"
  have "rel_sum (=) ?R
          (forEach [0..height g - 1] (renderStep ?h ?tl)
             (g\<lparr>coinPool := cp, frame := [CHR 0x1B, CHR ''['', CHR ''H'']\<rparr>))
          (forEach [0..height g - 1] (renderStep ?h ?tl)
             (g\<lparr>frame := [CHR 0x1B, CHR ''['', CHR ''H'']\<rparr>))"
  proof (rule forEach_sim)
    show "?R (g\<lparr>coinPool := cp, frame := [CHR 0x1B, CHR ''['', CHR ''H'']\<rparr>)
             (g\<lparr>frame := [CHR 0x1B, CHR ''['', CHR ''H'']\<rparr>)"
      by simp
  next
    fix row and s t :: game
    assume R: "?R s t"
    then have s: "s = t\<lparr>coinPool := cp\<rparr>" and cp: "coinPool t = coinPool g"
      and ht: "height t = height g"
      by simp_all
    have er: "entityRow t ?h zz = entityRow g ?h zz" for zz
      by (simp add: entityRow_def ht)
    have rr: "renderRow (t\<lparr>coinPool := cp\<rparr>) row ?h ?tl = renderRow t row ?h ?tl"
      by (rule renderRow_coins_off_row) (use assms [of row] in \<open>simp add: ht cp er\<close>)
    show "rel_sum (=) ?R (renderStep ?h ?tl row s) (renderStep ?h ?tl row t)"
      unfolding s
      by (cases "renderRow t row ?h ?tl") (simp_all add: renderStep_def rr Let_def cp ht)
  qed
  then have "rel_sum (=) ?R (render (g\<lparr>coinPool := cp\<rparr>)) (render g)"
    by (simp add: render_def Let_def)
  then show ?thesis
    by (cases "render (g\<lparr>coinPool := cp\<rparr>)"; cases "render g") simp_all
qed

text \<open>
  Two more entities the claim as stated has drawn. The coin of \<open>farGame\<close> is active at the
  spawn depth 19, where the projected track is one column wide, and the guard
  \<^verbatim>\<open>cnTw < 3\<close> skips it. The coin of \<open>horizonGame\<close> is active at depth 17 and passes every
  guard of its pass, but its screen row is the horizon row 2, where \<open>drawGround\<close> returns
  before the entity passes. In both games \<open>render\<close> returns the frame of the game without
  coins.
\<close>

theorem far_coin_not_drawn:
  "coinObj.active (coinPool farGame ! 0)
   \<and> depthFraction (coinObj.z (coinPool farGame ! 0)) = 1 / 20
   \<and> entityTw (coinObj.z (coinPool farGame ! 0)) = 1
   \<and> farGame = (newGame 80 24)\<lparr>coinPool := coinPool farGame\<rparr>
   \<and> \<not> isl (render farGame)
   \<and> map_sum (\<lambda>e. e) frame (render farGame) = map_sum (\<lambda>e. e) frame (render (newGame 80 24))"
proof -
  have tw: "entityTw 19 = 1"
    by (simp add: entityTw_def trackWidth_def numLanes_def laneWidth_def farZ_def go_int_def)
  have a: "list_all (\<lambda>c. \<not> entityDrawn (coinObj.active c) (coinObj.z c)) (coinPool (newGame 80 24))"
    by (simp add: newGame_def list_all_iff entityDrawn_def)
  have b: "list_all (\<lambda>c. \<not> entityDrawn (coinObj.active c) (coinObj.z c)) (coinPool farGame)"
    by (simp add: farGame_def newGame_def list_all_iff entityDrawn_def tw)
  have eq: "farGame = (newGame 80 24)\<lparr>coinPool := coinPool farGame\<rparr>"
    by (simp add: farGame_def)
  have fr: "map_sum (\<lambda>e. e) frame (render farGame) = map_sum (\<lambda>e. e) frame (render (newGame 80 24))"
    using render_coins_skipped [OF a b] eq by simp
  have "1 \<le> width farGame" "0 \<le> elapsed farGame"
    by (simp_all add: farGame_def newGame_def)
  then have ok: "\<not> isl (render farGame)"
    using render_result [of farGame] by (cases "render farGame") auto
  show ?thesis
    using fr ok eq tw by (simp add: farGame_def newGame_def depthFraction_def farZ_def)
qed

theorem horizon_coin_not_drawn:
  "entityDrawn (coinObj.active (coinPool horizonGame ! 0)) (coinObj.z (coinPool horizonGame ! 0))
   \<and> height horizonGame sdiv 3 = 2
   \<and> entityRow horizonGame 2 (coinObj.z (coinPool horizonGame ! 0)) = 2
   \<and> coinColumn (width horizonGame sdiv 2) (coinPool horizonGame ! 0) = 40
   \<and> horizonGame = (newGame 80 6)\<lparr>coinPool := coinPool horizonGame\<rparr>
   \<and> \<not> isl (render horizonGame)
   \<and> map_sum (\<lambda>e. e) frame (render horizonGame) = map_sum (\<lambda>e. e) frame (render (newGame 80 6))"
proof -
  have tw: "entityTw 17 = 3"
    by (simp add: entityTw_def trackWidth_def numLanes_def laneWidth_def farZ_def go_int_def)
  have dr: "entityDrawn True 17"
    by (simp add: entityDrawn_def depthFraction_def farZ_def tw)
  have h: "height (newGame 80 6) sdiv 3 = 2"
    by (simp add: newGame_def)
  have row: "entityRow (newGame 80 6) 2 17 = 2"
    by (simp add: entityRow_def depthFraction_def farZ_def newGame_def go_int_def)
  have col: "coinColumn 40 \<lparr>coinObj.lane = 1, coinObj.z = 17, coinObj.active = True\<rparr> = 40"
    by (simp add: coinColumn_def tw numLanes_def go_int_def)
  have eq: "horizonGame = (newGame 80 6)\<lparr>coinPool := coinPool horizonGame\<rparr>"
    by (simp add: horizonGame_def)
  have rows: "row < 2
           \<or> real_of_int (row - 2) / real_of_int (height (newGame 80 6) - 2) \<le> 0
           \<or> (list_all (\<lambda>c. \<not> (entityDrawn (coinObj.active c) (coinObj.z c)
                                 \<and> row = entityRow (newGame 80 6) 2 (coinObj.z c)))
                 (coinPool (newGame 80 6))
              \<and> list_all (\<lambda>c. \<not> (entityDrawn (coinObj.active c) (coinObj.z c)
                                   \<and> row = entityRow (newGame 80 6) 2 (coinObj.z c)))
                   (coinPool horizonGame))" for row
  proof (cases "row \<le> 2")
    case True
    then have "row < 2 \<or> row = 2" by auto
    then show ?thesis by (auto simp: newGame_def)
  next
    case False
    then have "row \<noteq> entityRow (newGame 80 6) 2 17" by (simp add: row)
    then show ?thesis
      by (simp add: horizonGame_def newGame_def list_all_iff entityDrawn_def entityRow_def)
  qed
  have fr: "map_sum (\<lambda>e. e) frame (render horizonGame) = map_sum (\<lambda>e. e) frame (render (newGame 80 6))"
    using render_coins_off_rows [of "newGame 80 6" "coinPool horizonGame"] rows eq
    by (simp add: h)
  have "1 \<le> width horizonGame" "0 \<le> elapsed horizonGame"
    by (simp_all add: horizonGame_def newGame_def)
  then have ok: "\<not> isl (render horizonGame)"
    using render_result [of horizonGame] by (cases "render horizonGame") auto
  have f: "coinPool horizonGame ! 0 = \<lparr>coinObj.lane = 1, coinObj.z = 17, coinObj.active = True\<rparr>"
    "height horizonGame = 6" "width horizonGame = 80"
    by (simp_all add: horizonGame_def newGame_def)
  have row': "entityRow horizonGame 2 17 = 2"
    using row by (simp add: entityRow_def horizonGame_def newGame_def)
  show ?thesis
    using fr ok eq dr col row' by (simp add: f)
qed

section \<open>The runner's head over an entity\<close>

lemma drawRunner_head:
  assumes "drawRunner g row horizon center buf = Inr b'"
    and "int (length buf) = width g"
    and "row = runnerRow g horizon - 2"
    and "0 \<le> runnerColumn g center" and "runnerColumn g center < width g"
  shows "b' ! nat (runnerColumn g center) = CHR ''O''"
proof -
  have "bufSet buf (runnerColumn g center) CHR ''O'' = Inr b'"
    using assms(1,3,4,5) by (simp add: drawRunner_alt)
  then show ?thesis
    using assms(2,4,5) by (auto simp: bufSet_def split: if_splits)
qed

lemma ground_layers_head:
  assumes "thenDo (groundTexture row buf) (\<lambda>b1.
            thenDo (trackSurface left right b1) (\<lambda>b2.
            thenDo (rails g left right b2) (\<lambda>b3.
            thenDo (laneDividers g row tw left right b3) (\<lambda>b4.
            thenDo (crossTies g row left right b4) (\<lambda>b5.
            thenDo (forEach [0..<length (obstacles g)] (drawObstacle g row horizon center) b5) (\<lambda>b6.
            thenDo (forEach [0..<length (coinPool g)] (drawCoin g row horizon center) b6) (\<lambda>b7.
            drawRunner g row horizon center b7))))))) = Inr line"
    and "length buf = n" and "int n = width g" and "0 \<le> left" and "right < int n"
    and "row = runnerRow g horizon - 2"
    and "0 \<le> runnerColumn g center" and "runnerColumn g center < width g"
  shows "line ! nat (runnerColumn g center) = CHR ''O''"
proof -
  from assms(1) obtain b1 b2 b3 b4 b5 b6 b7 where
    e1: "groundTexture row buf = Inr b1" and
    e2: "trackSurface left right b1 = Inr b2" and
    e3: "rails g left right b2 = Inr b3" and
    e4: "laneDividers g row tw left right b3 = Inr b4" and
    e5: "crossTies g row left right b4 = Inr b5" and
    e6: "forEach [0..<length (obstacles g)] (drawObstacle g row horizon center) b5 = Inr b6" and
    e7: "forEach [0..<length (coinPool g)] (drawCoin g row horizon center) b6 = Inr b7" and
    e8: "drawRunner g row horizon center b7 = Inr line"
    unfolding thenDo_eq_Inr by blast
  have l1: "length b1 = n"
    by (rule bufResult_length [OF groundTexture_ok [OF assms(2)] e1])
  have l2: "length b2 = n"
    by (rule bufResult_length [OF trackSurface_ok [OF l1 assms(4,5)] e2])
  have l3: "length b3 = n"
    by (rule bufResult_length [OF rails_ok [OF l2 assms(3)] e3])
  have l4: "length b4 = n"
    by (rule bufResult_length [OF laneDividers_ok [OF l3 assms(3,4)] e4])
  have l5: "length b5 = n"
    by (rule bufResult_length [OF crossTies_ok [OF l4 assms(4,5)] e5])
  have w5: "int (length b5) = width g" using l5 assms(3) by simp
  have l6: "length b6 = n" using obstacle_pass_cell [OF e6 w5] l5 by simp
  have w6: "int (length b6) = width g" using l6 assms(3) by simp
  have l7: "length b7 = n" using coin_pass_cell [OF e7 w6] l6 by simp
  have w7: "int (length b7) = width g" using l7 assms(3) by simp
  show ?thesis
    by (rule drawRunner_head [OF e8 w7 assms(6,7,8)])
qed

lemma drawGround_head:
  assumes "drawGround g buf row horizon trackLeft = Inr line"
    and "length buf = n" and "int n = width g" and "horizon < row" and "row < height g"
    and "row = runnerRow g horizon - 2"
    and "0 \<le> runnerColumn g (width g sdiv 2)" and "runnerColumn g (width g sdiv 2) < width g"
  shows "line ! nat (runnerColumn g (width g sdiv 2)) = CHR ''O''"
proof -
  have "0 < real_of_int (row - horizon)" "0 < real_of_int (height g - horizon)"
    using assms(4,5) by simp_all
  then have "0 < real_of_int (row - horizon) / real_of_int (height g - horizon)"
    by (rule divide_pos_pos)
  then have nd: "(real_of_int (row - horizon) / real_of_int (height g - horizon) \<le> 0) = False"
    by simp
  have l: "0 \<le> (if left0 < 0 then 0 else left0)" for left0 :: int
    by simp
  have r: "(if right0 \<ge> width g then width g - 1 else right0) < int n" for right0
    using assms(3) by simp
  note layers = assms(1) [unfolded drawGround_def Let_def nd if_False]
  show ?thesis
    by (rule ground_layers_head [OF layers assms(2,3) l r assms(6,7,8)])
qed

lemma renderRow_head:
  assumes "renderRow g row horizon trackLeft = Inr line"
    and "1 \<le> width g" and "horizon < row" and "row < height g" and "2 \<le> row"
    and "row = runnerRow g horizon - 2"
    and "0 \<le> runnerColumn g (width g sdiv 2)" and "runnerColumn g (width g sdiv 2) < width g"
  shows "line ! nat (runnerColumn g (width g sdiv 2)) = CHR ''O''"
proof -
  let ?n = "nat (width g)"
  have n: "int ?n = width g" using assms(2) by simp
  have nw: "\<not> width g < 0" "\<not> row < horizon" "row \<noteq> 0" "row \<noteq> 1"
    using assms(2,3,5) by simp_all
  from assms(1) obtain b0 where
    e0: "forEach [0..<?n] (\<lambda>i b. bufSet b (int i) CHR '' '') (replicate ?n (CHR 0x00)) = Inr b0" and
    e1: "drawGround g b0 row horizon trackLeft = Inr line"
    unfolding renderRow_def using nw by (auto simp: thenDo_eq_Inr)
  have fill: "bufResult ?n (forEach [0..<?n] (\<lambda>i b. bufSet b (int i) CHR '' '')
                  (replicate ?n (CHR 0x00)))"
    by (intro bufResult_forEach bufResult_bufSet) (use assms(2) in simp_all)
  have len0: "length b0 = ?n"
    by (rule bufResult_length [OF fill e0])
  show ?thesis
    by (rule drawGround_head [OF e1 len0 n assms(3,4,6,7,8)])
qed

text \<open>
  The runner sprite is drawn after the entities. The coin of \<open>coveredGame\<close> is active at
  depth 6 and passes every guard of its pass; its cell, row 19 and column 40, is the cell
  of the runner's head, and the frame holds \<open>O\<close> there.
\<close>

theorem covered_coin_not_shown:
  "entityDrawn (coinObj.active (coinPool coveredGame ! 0)) (coinObj.z (coinPool coveredGame ! 0))
   \<and> entityRow coveredGame (height coveredGame sdiv 3) (coinObj.z (coinPool coveredGame ! 0)) = 19
   \<and> coinColumn (width coveredGame sdiv 2) (coinPool coveredGame ! 0) = 40
   \<and> (\<exists>g'. render coveredGame = Inr g' \<and> frameRow coveredGame (frame g') 19 ! 40 = CHR ''O'')"
proof -
  have w: "1 \<le> width coveredGame" "0 \<le> elapsed coveredGame"
    by (simp_all add: coveredGame_def newGame_def)
  then obtain g' where r: "render coveredGame = Inr g'"
    using render_result [of coveredGame] by (cases "render coveredGame") auto
  have f: "coinPool coveredGame ! 0 = \<lparr>coinObj.lane = 1, coinObj.z = 6, coinObj.active = True\<rparr>"
    "height coveredGame = 24" "width coveredGame = 80" "laneX coveredGame = 1"
    by (simp_all add: coveredGame_def newGame_def)
  have geo: "height coveredGame sdiv 3 = 8" "width coveredGame sdiv 2 = 40"
    by (simp_all add: f)
  have tw: "entityTw 6 = 17"
    by (simp add: entityTw_def trackWidth_def numLanes_def laneWidth_def farZ_def go_int_def)
  have dr: "entityDrawn True 6"
    by (simp add: entityDrawn_def depthFraction_def farZ_def tw)
  have row: "entityRow coveredGame 8 6 = 19"
    by (simp add: entityRow_def depthFraction_def farZ_def f go_int_def)
  have col: "coinColumn 40 \<lparr>coinObj.lane = 1, coinObj.z = 6, coinObj.active = True\<rparr> = 40"
    by (simp add: coinColumn_def tw numLanes_def go_int_def)
  have rr: "runnerRow coveredGame 8 = 21"
    by (simp add: runnerRow_def f go_int_def)
  have rc: "runnerColumn coveredGame 40 = 40"
    by (simp add: runnerColumn_def f trackWidth_def numLanes_def laneWidth_def go_int_def)
  from render_row [OF r w(1), of 19] obtain line where
    l: "renderRow coveredGame 19 8 ((width coveredGame - trackWidth) sdiv 2) = Inr line"
    and fr: "frameRow coveredGame (frame g') 19 = line"
    by (auto simp: f)
  have "line ! nat (runnerColumn coveredGame (width coveredGame sdiv 2)) = CHR ''O''"
    by (rule renderRow_head [OF l w(1)]) (simp_all add: f rr rc)
  then have "frameRow coveredGame (frame g') 19 ! 40 = CHR ''O''"
    by (simp add: fr geo rc)
  then show ?thesis
    using r dr row col by (simp add: f)
qed

end
